theory Spec2Isabelle
  imports Main "HOL-Library.Multiset"
begin

section \<open>Data model\<close>

text \<open>
  The classes \<open>Term\<close> and \<open>Function\<close> of the source form one datatype: a \<open>Term\<close> carries
  a name, a \<open>Function\<close> a name and its argument list. Equality of both classes is
  structural (\<open>__eq__\<close> compares class, name and arguments), as equality of the datatype is.
\<close>

datatype trm = Term string | Function string "trm list"

datatype predicate = Predicate (name: string) (args: "trm list") (negated: bool)

datatype clause = Clause (literals: "predicate list")

text \<open>\<open>Clause.__eq__\<close>: two clauses are equal when their literal sets are.\<close>

definition clause_eq :: "clause \<Rightarrow> clause \<Rightarrow> bool" where
  "clause_eq c d = (set (literals c) = set (literals d))"

subsection \<open>The lexical convention for variables\<close>

text \<open>
  \<open>Term.is_variable\<close> is \<open>re.fullmatch(r"[a-z][a-zA-Z0-9_]*", name)\<close>: the classes of the
  pattern are ranges of ASCII code points.
\<close>

definition is_lower :: "char \<Rightarrow> bool" where
  "is_lower c = (97 \<le> (of_char c :: nat) \<and> (of_char c :: nat) \<le> 122)"

definition is_upper :: "char \<Rightarrow> bool" where
  "is_upper c = (65 \<le> (of_char c :: nat) \<and> (of_char c :: nat) \<le> 90)"

definition is_digit :: "char \<Rightarrow> bool" where
  "is_digit c = (48 \<le> (of_char c :: nat) \<and> (of_char c :: nat) \<le> 57)"

definition is_word_char :: "char \<Rightarrow> bool" where
  "is_word_char c = (is_lower c \<or> is_upper c \<or> is_digit c \<or> c = CHR ''_'')"

fun Term_is_variable :: "string \<Rightarrow> bool" where
  "Term_is_variable [] = False"
| "Term_is_variable (c # cs) = (is_lower c \<and> list_all is_word_char cs)"

fun Term_is_constant :: "string \<Rightarrow> bool" where
  "Term_is_constant [] = False"
| "Term_is_constant (c # cs) = (is_upper c \<and> list_all is_word_char cs)"

text \<open>\<open>is_variable(x)\<close>: \<open>isinstance(x, Term) and x.is_variable()\<close>.\<close>

fun is_variable :: "trm \<Rightarrow> bool" where
  "is_variable (Term n) = Term_is_variable n"
| "is_variable (Function f as) = False"

section \<open>Unification\<close>

text \<open>
  A substitution is a dictionary whose keys and values are terms. The recursive functions
  of the source take a bound on the depth of calls as their first argument: the result
  \<open>None\<close> says that the bound was reached and nothing was returned. What the source
  returns is under \<open>Some\<close>; there the failure sentinel \<open>None\<close> of \<open>unify\<close> is
  \<open>Some None\<close> and a dictionary \<open>s\<close> is \<open>Some (Some s)\<close>.
\<close>

type_synonym subst = "trm \<rightharpoonup> trm"

text \<open>\<open>any(f(a) for a in as)\<close>: stops at the first element that gives \<open>True\<close>.\<close>

fun py_any :: "('a \<Rightarrow> bool option) \<Rightarrow> 'a list \<Rightarrow> bool option" where
  "py_any f [] = Some False"
| "py_any f (a # as) =
     (case f a of None \<Rightarrow> None | Some True \<Rightarrow> Some True | Some False \<Rightarrow> py_any f as)"

fun occurs_check :: "nat \<Rightarrow> trm \<Rightarrow> trm \<Rightarrow> subst \<Rightarrow> bool option" where
  "occurs_check 0 var x subst = None"
| "occurs_check (Suc n) var x subst =
     (if var = x then Some True
      else case x of
        Term nm \<Rightarrow> (case subst x of Some b \<Rightarrow> occurs_check n var b subst | None \<Rightarrow> Some False)
      | Function f as \<Rightarrow> py_any (\<lambda>arg. occurs_check n var arg subst) as)"

text \<open>
  The loop of \<open>unify_lists\<close>: the substitution is threaded through the pairs, and the
  first failure ends the loop.
\<close>

fun for_pairs :: "('a \<Rightarrow> 's \<Rightarrow> 's option option) \<Rightarrow> 'a list \<Rightarrow> 's \<Rightarrow> 's option option" where
  "for_pairs f [] s = Some (Some s)"
| "for_pairs f (p # ps) s =
     (case f p s of None \<Rightarrow> None | Some None \<Rightarrow> Some None | Some (Some s') \<Rightarrow> for_pairs f ps s')"

text \<open>
  \<open>unify\<close> on two terms. The source's \<open>unify\<close> is also called on two argument lists;
  that entry is \<open>unify_args\<close> below.
\<close>

fun unify :: "nat \<Rightarrow> trm \<Rightarrow> trm \<Rightarrow> subst option \<Rightarrow> subst option option"
  and unify_var :: "nat \<Rightarrow> trm \<Rightarrow> trm \<Rightarrow> subst \<Rightarrow> subst option option"
  and unify_lists :: "nat \<Rightarrow> trm list \<Rightarrow> trm list \<Rightarrow> subst \<Rightarrow> subst option option"
where
  "unify 0 x y so = None"
| "unify (Suc n) x y so =
     (case so of
        None \<Rightarrow> Some None
      | Some subst \<Rightarrow>
          if x = y then Some (Some subst)
          else if is_variable x then unify_var n x y subst
          else if is_variable y then unify_var n y x subst
          else (case (x, y) of
                  (Function f xs, Function g ys) \<Rightarrow>
                    if f \<noteq> g \<or> length xs \<noteq> length ys then Some None
                    else unify_lists n xs ys subst
                | _ \<Rightarrow> Some None))"
| "unify_var 0 var x subst = None"
| "unify_var (Suc n) var x subst =
     (case subst var of
        Some b \<Rightarrow> unify n b x (Some subst)
      | None \<Rightarrow>
          (case subst x of
             Some b \<Rightarrow> unify n var b (Some subst)
           | None \<Rightarrow>
               (case occurs_check n var x subst of
                  None \<Rightarrow> None
                | Some True \<Rightarrow> Some None
                | Some False \<Rightarrow> Some (Some (subst(var \<mapsto> x))))))"
| "unify_lists 0 xs ys subst = None"
| "unify_lists (Suc n) xs ys subst =
     (if length xs \<noteq> length ys then Some None
      else for_pairs (\<lambda>(x, y) s. unify n x y (Some s)) (zip xs ys) subst)"

text \<open>
  \<open>unify\<close> called on two lists, as \<open>resolve\<close> calls it: a list is neither a variable nor
  a \<open>Function\<close>, so after the test for equality the call goes to \<open>unify_lists\<close>.
\<close>

fun unify_args :: "nat \<Rightarrow> trm list \<Rightarrow> trm list \<Rightarrow> subst option \<Rightarrow> subst option option" where
  "unify_args 0 xs ys so = None"
| "unify_args (Suc n) xs ys so =
     (case so of
        None \<Rightarrow> Some None
      | Some subst \<Rightarrow> if xs = ys then Some (Some subst) else unify_lists n xs ys subst)"

section \<open>Substitution\<close>

fun substitute :: "nat \<Rightarrow> trm \<Rightarrow> subst \<Rightarrow> trm option" where
  "substitute 0 t subst = None"
| "substitute (Suc n) t subst =
     (case subst t of
        Some b \<Rightarrow> substitute n b subst
      | None \<Rightarrow>
          (case t of
             Function f as \<Rightarrow> map_option (Function f) (those (map (\<lambda>arg. substitute n arg subst) as))
           | Term nm \<Rightarrow> Some t))"

definition substitute_predicate :: "nat \<Rightarrow> predicate \<Rightarrow> subst \<Rightarrow> predicate option" where
  "substitute_predicate n pred subst =
     map_option (\<lambda>new_args. Predicate (name pred) new_args (negated pred))
       (those (map (\<lambda>arg. substitute n arg subst) (args pred)))"

section \<open>Resolution\<close>

text \<open>
  \<open>list(set(xs))\<close> lists each element of \<open>xs\<close> once, in the order of the hash table;
  iterating over the set \<open>new\<close> does the same. The order is a parameter of the model:
  \<open>lo\<close> for a set of literals, \<open>co\<close> for a set of clauses (given as the list of its
  elements in the order of insertion).
\<close>

definition literal_order :: "(predicate list \<Rightarrow> predicate list) \<Rightarrow> bool" where
  "literal_order lo = (\<forall>xs. set (lo xs) = set xs \<and> distinct (lo xs))"

definition clause_order :: "(clause list \<Rightarrow> clause list) \<Rightarrow> bool" where
  "clause_order co = (\<forall>xs. mset (co xs) = mset xs)"

text \<open>The body of the two nested loops of \<open>resolve\<close> for one pair of literals.\<close>

definition resolve_literals ::
  "(predicate list \<Rightarrow> predicate list) \<Rightarrow> nat \<Rightarrow> clause \<Rightarrow> clause \<Rightarrow> predicate \<Rightarrow> predicate
     \<Rightarrow> clause list option" where
  "resolve_literals lo n ci cj pi pj =
     (if name pi = name pj \<and> negated pi \<noteq> negated pj then
        (case unify_args n (args pi) (args pj) (Some Map.empty) of
           None \<Rightarrow> None
         | Some None \<Rightarrow> Some []
         | Some (Some subst) \<Rightarrow>
             (case those (map (\<lambda>p. substitute_predicate n p subst)
                           (filter (\<lambda>p. p \<noteq> pi) (literals ci))) of
                None \<Rightarrow> None
              | Some new_ci \<Rightarrow>
                  (case those (map (\<lambda>p. substitute_predicate n p subst)
                                (filter (\<lambda>p. p \<noteq> pj) (literals cj))) of
                     None \<Rightarrow> None
                   | Some new_cj \<Rightarrow> Some [Clause (lo (new_ci @ new_cj))])))
      else Some [])"

definition resolve ::
  "(predicate list \<Rightarrow> predicate list) \<Rightarrow> nat \<Rightarrow> clause \<Rightarrow> clause \<Rightarrow> clause list option" where
  "resolve lo n ci cj =
     map_option concat
       (those (map (\<lambda>(pi, pj). resolve_literals lo n ci cj pi pj)
                 (List.product (literals ci) (literals cj))))"

text \<open>
  A set of clauses is the list of its elements in the order of insertion; membership and
  insertion go by \<open>Clause.__eq__\<close>.
\<close>

definition clause_member :: "clause \<Rightarrow> clause list \<Rightarrow> bool" where
  "clause_member c cs = list_ex (clause_eq c) cs"

definition set_add :: "clause list \<Rightarrow> clause \<Rightarrow> clause list" where
  "set_add cs c = (if clause_member c cs then cs else cs @ [c])"

definition set_of_list :: "clause list \<Rightarrow> clause list" where
  "set_of_list cs = foldl set_add [] cs"

definition pairs :: "'a list \<Rightarrow> ('a \<times> 'a) list" where
  "pairs clauses =
     concat (map (\<lambda>i. map (\<lambda>j. (clauses ! i, clauses ! j)) [i + 1 ..< length clauses])
               [0 ..< length clauses])"

text \<open>
  The inner loop over the resolvents of one pair: \<open>Inl\<close> is the early return (the verdict,
  with the set \<open>derived\<close> as it is then), \<open>Inr\<close> the sets \<open>new\<close> and \<open>derived\<close> after the
  loop.
\<close>

fun for_resolvents ::
  "clause list \<Rightarrow> clause list \<times> clause list
     \<Rightarrow> (string \<times> clause list) + (clause list \<times> clause list)" where
  "for_resolvents [] (new, derived) = Inr (new, derived)"
| "for_resolvents (res # rs) (new, derived) =
     (if literals res = [] then Inl (''no'', derived)
      else if \<not> clause_member res derived
        then for_resolvents rs (set_add new res, set_add derived res)
        else for_resolvents rs (new, derived))"

fun for_clause_pairs ::
  "(predicate list \<Rightarrow> predicate list) \<Rightarrow> nat \<Rightarrow> (clause \<times> clause) list
     \<Rightarrow> clause list \<times> clause list
     \<Rightarrow> ((string \<times> clause list) + (clause list \<times> clause list)) option" where
  "for_clause_pairs lo d [] st = Some (Inr st)"
| "for_clause_pairs lo d ((ci, cj) # ps) st =
     (case resolve lo d ci cj of
        None \<Rightarrow> None
      | Some resolvents \<Rightarrow>
          (case for_resolvents resolvents st of
             Inl r \<Rightarrow> Some (Inl r)
           | Inr st' \<Rightarrow> for_clause_pairs lo d ps st'))"

text \<open>
  The \<open>while True\<close> loop, with a bound \<open>r\<close> on the number of rounds and the bound \<open>d\<close> on
  the depth of calls in \<open>unify\<close> and \<open>substitute\<close>. At the top of each round \<open>new\<close> is
  empty. The result is the verdict together with the set \<open>derived\<close> at the return.
\<close>

fun saturate ::
  "(predicate list \<Rightarrow> predicate list) \<Rightarrow> (clause list \<Rightarrow> clause list) \<Rightarrow> nat \<Rightarrow> nat
     \<Rightarrow> clause list \<Rightarrow> clause list \<Rightarrow> (string \<times> clause list) option" where
  "saturate lo co d 0 clauses derived = None"
| "saturate lo co d (Suc r) clauses derived =
     (case for_clause_pairs lo d (pairs clauses) ([], derived) of
        None \<Rightarrow> None
      | Some (Inl res) \<Rightarrow> Some res
      | Some (Inr (new, derived')) \<Rightarrow>
          if new = [] then Some (''yes'', derived')
          else saturate lo co d r (clauses @ co new) derived')"

definition resolution_run ::
  "(predicate list \<Rightarrow> predicate list) \<Rightarrow> (clause list \<Rightarrow> clause list) \<Rightarrow> nat \<Rightarrow> nat
     \<Rightarrow> clause list \<Rightarrow> (string \<times> clause list) option" where
  "resolution_run lo co d r kb = saturate lo co d r kb (set_of_list kb)"

definition resolution ::
  "(predicate list \<Rightarrow> predicate list) \<Rightarrow> (clause list \<Rightarrow> clause list) \<Rightarrow> nat \<Rightarrow> nat
     \<Rightarrow> clause list \<Rightarrow> string option" where
  "resolution lo co d r kb = map_option fst (resolution_run lo co d r kb)"

section \<open>Notions used in the statements\<close>

text \<open>The keys that \<open>s'\<close> has and \<open>s\<close> has not are variables.\<close>

definition new_keys_variables :: "subst \<Rightarrow> subst \<Rightarrow> bool" where
  "new_keys_variables s s' = (\<forall>k. s k = None \<and> s' k \<noteq> None \<longrightarrow> is_variable k)"

definition nk_unify :: "nat \<Rightarrow> bool" where
  "nk_unify n = (\<forall>x y s s'. unify n x y (Some s) = Some (Some s') \<longrightarrow> new_keys_variables s s')"

definition nk_unify_var :: "nat \<Rightarrow> bool" where
  "nk_unify_var n = (\<forall>var x s s'. is_variable var \<longrightarrow> unify_var n var x s = Some (Some s')
      \<longrightarrow> new_keys_variables s s')"

definition nk_unify_lists :: "nat \<Rightarrow> bool" where
  "nk_unify_lists n = (\<forall>xs ys s s'. unify_lists n xs ys s = Some (Some s')
      \<longrightarrow> new_keys_variables s s')"

text \<open>
  The occurs-check in the words of the specification: \<open>var\<close> occurs in \<open>x\<close> when \<open>x\<close> is
  \<open>var\<close>, when \<open>x\<close> is bound and \<open>var\<close> occurs in what it is bound to, or when \<open>x\<close> is a
  \<open>Function\<close> and \<open>var\<close> occurs in one of its arguments.
\<close>

inductive occurs :: "subst \<Rightarrow> trm \<Rightarrow> trm \<Rightarrow> bool" for s :: subst and var :: trm where
  occurs_same: "occurs s var var"
| occurs_bound: "s (Term nm) = Some b \<Longrightarrow> occurs s var b \<Longrightarrow> occurs s var (Term nm)"
| occurs_arg: "a \<in> set as \<Longrightarrow> occurs s var a \<Longrightarrow> occurs s var (Function f as)"

text \<open>The two knowledge bases of the specification's examples.\<close>

definition kb_contradiction :: "clause list" where
  "kb_contradiction =
     [Clause [Predicate ''P'' [Term ''x''] False], Clause [Predicate ''P'' [Term ''A''] True]]"

definition kb_saturated :: "clause list" where
  "kb_saturated =
     [Clause [Predicate ''P'' [Term ''A''] False], Clause [Predicate ''Q'' [Term ''B''] False]]"

subsection \<open>Full chase and well-formed substitutions\<close>

text \<open>
  The full chase of \<open>substitute\<close> as a relation: \<open>chases s t r\<close> says that \<open>t\<close> under
  \<open>s\<close> is \<open>r\<close>. It holds exactly when \<open>substitute\<close> returns \<open>r\<close> for some depth bound.
\<close>

inductive chases :: "subst \<Rightarrow> trm \<Rightarrow> trm \<Rightarrow> bool" for s :: subst where
  chases_bound: "s t = Some b \<Longrightarrow> chases s b r \<Longrightarrow> chases s t r"
| chases_term: "s (Term nm) = None \<Longrightarrow> chases s (Term nm) (Term nm)"
| chases_function:
    "s (Function f as) = None \<Longrightarrow> list_all2 (chases s) as rs
       \<Longrightarrow> chases s (Function f as) (Function f rs)"

text \<open>
  The substitutions that \<open>unify\<close> builds: every key is a variable, and the chase of every
  term ends.
\<close>

definition var_keys :: "subst \<Rightarrow> bool" where
  "var_keys s = (\<forall>k. s k \<noteq> None \<longrightarrow> is_variable k)"

definition wf_subst :: "subst \<Rightarrow> bool" where
  "wf_subst s = (var_keys s \<and> (\<forall>t. \<exists>r. chases s t r))"

text \<open>Two terms are the same term under \<open>s\<close>.\<close>

definition agree :: "subst \<Rightarrow> trm \<Rightarrow> trm \<Rightarrow> bool" where
  "agree s x y = (\<exists>r. chases s x r \<and> chases s y r)"

text \<open>The \<open>Term\<close> nodes of a term; those of the chased forms of a set of terms.\<close>

fun leaves :: "trm \<Rightarrow> trm set" where
  "leaves (Term nm) = {Term nm}"
| "leaves (Function f as) = (\<Union>a \<in> set as. leaves a)"

definition nleaves :: "subst \<Rightarrow> trm set \<Rightarrow> trm set" where
  "nleaves s T = {l. \<exists>t \<in> T. \<exists>r. chases s t r \<and> l \<in> leaves r}"

text \<open>
  How a call of \<open>unify\<close> changes the substitution: \<open>ok s s' W\<close> says that \<open>s'\<close> extends
  \<open>s\<close>, that chasing under \<open>s'\<close> adds no leaves but those in \<open>W\<close>, and that \<open>s'\<close> is \<open>s\<close>
  or binds a term of \<open>W\<close>.
\<close>

definition leaves_within :: "subst \<Rightarrow> subst \<Rightarrow> trm set \<Rightarrow> bool" where
  "leaves_within s s' W = (\<forall>t r r'. chases s t r \<longrightarrow> chases s' t r' \<longrightarrow> leaves r' \<subseteq> leaves r \<union> W)"

definition ok :: "subst \<Rightarrow> subst \<Rightarrow> trm set \<Rightarrow> bool" where
  "ok s s' W = (wf_subst s' \<and> s \<subseteq>\<^sub>m s' \<and> leaves_within s s' W
                 \<and> (s' = s \<or> (\<exists>v \<in> W. s' v \<noteq> None)))"

text \<open>What the three functions of the unifier keep, at a given depth bound.\<close>

definition sound_unify :: "nat \<Rightarrow> bool" where
  "sound_unify n = (\<forall>x y s s'. wf_subst s \<longrightarrow> unify n x y (Some s) = Some (Some s')
      \<longrightarrow> ok s s' (nleaves s {x, y}) \<and> agree s' x y)"

definition sound_unify_var :: "nat \<Rightarrow> bool" where
  "sound_unify_var n = (\<forall>var x s s'. wf_subst s \<longrightarrow> is_variable var
      \<longrightarrow> unify_var n var x s = Some (Some s')
      \<longrightarrow> ok s s' (nleaves s {var, x}) \<and> agree s' var x)"

definition sound_unify_lists :: "nat \<Rightarrow> bool" where
  "sound_unify_lists n = (\<forall>xs ys s s'. wf_subst s \<longrightarrow> unify_lists n xs ys s = Some (Some s')
      \<longrightarrow> ok s s' (nleaves s (set xs \<union> set ys)) \<and> list_all2 (agree s') xs ys)"

subsection \<open>The unifier over a store of dictionaries\<close>

text \<open>
  The unifier over a store of dictionaries. A reference is an index into the list of all
  dictionaries allocated so far; \<open>subst.copy()\<close> appends a dictionary, and the item
  assignment \<open>subst[var] = x\<close> updates the dictionary at the reference that \<open>subst\<close>
  holds then. A call returns what the source returns (no reference for the failure
  sentinel) and the store after the call.
\<close>

type_synonym ref = nat

type_synonym store = "subst list"

definition dict_copy :: "ref \<Rightarrow> store \<Rightarrow> ref \<times> store" where
  "dict_copy r h = (length h, h @ [h ! r])"

definition dict_setitem :: "ref \<Rightarrow> trm \<Rightarrow> trm \<Rightarrow> store \<Rightarrow> store" where
  "dict_setitem r k v h = h[r := (h ! r)(k \<mapsto> v)]"

fun for_pairs_st ::
  "('a \<Rightarrow> ref \<Rightarrow> store \<Rightarrow> (ref option \<times> store) option) \<Rightarrow> 'a list \<Rightarrow> ref \<Rightarrow> store
     \<Rightarrow> (ref option \<times> store) option" where
  "for_pairs_st f [] r h = Some (Some r, h)"
| "for_pairs_st f (p # ps) r h =
     (case f p r h of
        None \<Rightarrow> None
      | Some (None, h') \<Rightarrow> Some (None, h')
      | Some (Some r', h') \<Rightarrow> for_pairs_st f ps r' h')"

fun unify_st :: "nat \<Rightarrow> trm \<Rightarrow> trm \<Rightarrow> ref option \<Rightarrow> store \<Rightarrow> (ref option \<times> store) option"
  and unify_var_st :: "nat \<Rightarrow> trm \<Rightarrow> trm \<Rightarrow> ref \<Rightarrow> store \<Rightarrow> (ref option \<times> store) option"
  and unify_lists_st ::
    "nat \<Rightarrow> trm list \<Rightarrow> trm list \<Rightarrow> ref \<Rightarrow> store \<Rightarrow> (ref option \<times> store) option"
where
  "unify_st 0 x y so h = None"
| "unify_st (Suc n) x y so h =
     (case so of
        None \<Rightarrow> Some (None, h)
      | Some subst \<Rightarrow>
          if x = y then Some (Some subst, h)
          else if is_variable x then unify_var_st n x y subst h
          else if is_variable y then unify_var_st n y x subst h
          else (case (x, y) of
                  (Function f xs, Function g ys) \<Rightarrow>
                    if f \<noteq> g \<or> length xs \<noteq> length ys then Some (None, h)
                    else unify_lists_st n xs ys subst h
                | _ \<Rightarrow> Some (None, h)))"
| "unify_var_st 0 var x subst h = None"
| "unify_var_st (Suc n) var x subst h =
     (case (h ! subst) var of
        Some b \<Rightarrow> unify_st n b x (Some subst) h
      | None \<Rightarrow>
          (case (h ! subst) x of
             Some b \<Rightarrow> unify_st n var b (Some subst) h
           | None \<Rightarrow>
               (case occurs_check n var x (h ! subst) of
                  None \<Rightarrow> None
                | Some True \<Rightarrow> Some (None, h)
                | Some False \<Rightarrow>
                    (case dict_copy subst h of
                       (subst', h') \<Rightarrow> Some (Some subst', dict_setitem subst' var x h')))))"
| "unify_lists_st 0 xs ys subst h = None"
| "unify_lists_st (Suc n) xs ys subst h =
     (if length xs \<noteq> length ys then Some (None, h)
      else for_pairs_st (\<lambda>(x, y) s. unify_st n x y (Some s)) (zip xs ys) subst h)"

fun unify_args_st ::
  "nat \<Rightarrow> trm list \<Rightarrow> trm list \<Rightarrow> ref option \<Rightarrow> store \<Rightarrow> (ref option \<times> store) option" where
  "unify_args_st 0 xs ys so h = None"
| "unify_args_st (Suc n) xs ys so h =
     (case so of
        None \<Rightarrow> Some (None, h)
      | Some subst \<Rightarrow> if xs = ys then Some (Some subst, h) else unify_lists_st n xs ys subst h)"

text \<open>
  What a call may do to the store: the dictionaries that were there are as they were (the
  store after the call is the store before it, with new dictionaries appended), and a
  returned reference is the caller's own or a new one, to a dictionary that extends the
  caller's.
\<close>

definition frame :: "ref \<Rightarrow> store \<Rightarrow> ref option \<times> store \<Rightarrow> bool" where
  "frame r h res =
     (case res of (ro, h') \<Rightarrow>
        (\<exists>new. h' = h @ new)
        \<and> (case ro of None \<Rightarrow> True
            | Some r' \<Rightarrow> r' < length h' \<and> (r' = r \<or> length h \<le> r') \<and> h ! r \<subseteq>\<^sub>m h' ! r'))"

text \<open>The value that a call on the store returns, to compare with the function on values.\<close>

definition value_of :: "(ref option \<times> store) option \<Rightarrow> subst option option" where
  "value_of res = map_option (\<lambda>(ro, h'). map_option (\<lambda>r'. h' ! r') ro) res"

definition frame_unify :: "nat \<Rightarrow> bool" where
  "frame_unify n = (\<forall>x y r h. r < length h \<longrightarrow>
      unify n x y (Some (h ! r)) = value_of (unify_st n x y (Some r) h)
      \<and> (\<forall>res. unify_st n x y (Some r) h = Some res \<longrightarrow> frame r h res))"

definition frame_unify_var :: "nat \<Rightarrow> bool" where
  "frame_unify_var n = (\<forall>var x r h. r < length h \<longrightarrow>
      unify_var n var x (h ! r) = value_of (unify_var_st n var x r h)
      \<and> (\<forall>res. unify_var_st n var x r h = Some res \<longrightarrow> frame r h res))"

definition frame_unify_lists :: "nat \<Rightarrow> bool" where
  "frame_unify_lists n = (\<forall>xs ys r h. r < length h \<longrightarrow>
      unify_lists n xs ys (h ! r) = value_of (unify_lists_st n xs ys r h)
      \<and> (\<forall>res. unify_lists_st n xs ys r h = Some res \<longrightarrow> frame r h res))"

subsection \<open>The saturation loop over a store of lists\<close>

text \<open>
  The saturation loop over a store of lists. \<open>list(kb)\<close> appends a copy of the list at
  \<open>kb\<close> to the store; \<open>clauses.extend(new)\<close> updates the list at the reference that
  \<open>clauses\<close> holds. The sets \<open>new\<close> and \<open>derived\<close> are built by the call and are values here.
\<close>

type_synonym list_store = "clause list list"

definition list_copy :: "ref \<Rightarrow> list_store \<Rightarrow> ref \<times> list_store" where
  "list_copy r h = (length h, h @ [h ! r])"

definition list_extend :: "ref \<Rightarrow> clause list \<Rightarrow> list_store \<Rightarrow> list_store" where
  "list_extend r xs h = h[r := h ! r @ xs]"

fun saturate_st ::
  "(predicate list \<Rightarrow> predicate list) \<Rightarrow> (clause list \<Rightarrow> clause list) \<Rightarrow> nat \<Rightarrow> nat
     \<Rightarrow> ref \<Rightarrow> clause list \<Rightarrow> list_store \<Rightarrow> ((string \<times> clause list) \<times> list_store) option" where
  "saturate_st lo co d 0 clauses derived h = None"
| "saturate_st lo co d (Suc r) clauses derived h =
     (case for_clause_pairs lo d (pairs (h ! clauses)) ([], derived) of
        None \<Rightarrow> None
      | Some (Inl res) \<Rightarrow> Some (res, h)
      | Some (Inr (new, derived')) \<Rightarrow>
          if new = [] then Some ((''yes'', derived'), h)
          else saturate_st lo co d r clauses derived' (list_extend clauses (co new) h))"

definition resolution_st ::
  "(predicate list \<Rightarrow> predicate list) \<Rightarrow> (clause list \<Rightarrow> clause list) \<Rightarrow> nat \<Rightarrow> nat
     \<Rightarrow> ref \<Rightarrow> list_store \<Rightarrow> (string \<times> list_store) option" where
  "resolution_st lo co d r kb h =
     (case list_copy kb h of
        (clauses, h1) \<Rightarrow>
          map_option (\<lambda>(res, h'). (fst res, h'))
            (saturate_st lo co d r clauses (set_of_list (h1 ! clauses)) h1))"

subsection \<open>Notions for termination and completeness of the unifier\<close>

text \<open>A larger depth bound does not change what a call returns.\<close>

definition mono_unify :: "nat \<Rightarrow> bool" where
  "mono_unify n = (\<forall>m x y so r. n \<le> m \<longrightarrow> unify n x y so = Some r \<longrightarrow> unify m x y so = Some r)"

definition mono_unify_var :: "nat \<Rightarrow> bool" where
  "mono_unify_var n = (\<forall>m var x s r. n \<le> m \<longrightarrow> unify_var n var x s = Some r
      \<longrightarrow> unify_var m var x s = Some r)"

definition mono_unify_lists :: "nat \<Rightarrow> bool" where
  "mono_unify_lists n = (\<forall>m xs ys s r. n \<le> m \<longrightarrow> unify_lists n xs ys s = Some r
      \<longrightarrow> unify_lists m xs ys s = Some r)"

text \<open>The least depth bound at which \<open>substitute\<close> returns for a term.\<close>

definition height :: "subst \<Rightarrow> trm \<Rightarrow> nat" where
  "height s t = (LEAST n. substitute n t s \<noteq> None)"

text \<open>
  A substitution in the usual sense, as a function on terms: it maps a \<open>Function\<close> to the
  \<open>Function\<close> of the images of the arguments and leaves every \<open>Term\<close> that is not a
  variable as it is. It solves a dictionary when each key and its value have the same
  image.
\<close>

definition homomorphic :: "(trm \<Rightarrow> trm) \<Rightarrow> bool" where
  "homomorphic \<theta> = ((\<forall>f as. \<theta> (Function f as) = Function f (map \<theta> as))
      \<and> (\<forall>nm. \<not> is_variable (Term nm) \<longrightarrow> \<theta> (Term nm) = Term nm))"

definition solves :: "(trm \<Rightarrow> trm) \<Rightarrow> subst \<Rightarrow> bool" where
  "solves \<theta> s = (\<forall>k b. s k = Some b \<longrightarrow> \<theta> k = \<theta> b)"

text \<open>The number of nodes of a term.\<close>

fun tsize :: "trm \<Rightarrow> nat" where
  "tsize (Term nm) = 1"
| "tsize (Function f as) = 1 + sum_list (map tsize as)"

text \<open>
  What the three functions of the unifier keep when the two inputs have a common image:
  a call that returns does not fail, and the returned dictionary is solved by the same
  function.
\<close>

definition complete_unify :: "nat \<Rightarrow> bool" where
  "complete_unify n = (\<forall>x y s r \<theta>. wf_subst s \<longrightarrow> homomorphic \<theta> \<longrightarrow> solves \<theta> s
      \<longrightarrow> \<theta> x = \<theta> y \<longrightarrow> unify n x y (Some s) = Some r
      \<longrightarrow> (\<exists>s'. r = Some s' \<and> solves \<theta> s'))"

definition complete_unify_var :: "nat \<Rightarrow> bool" where
  "complete_unify_var n = (\<forall>var x s r \<theta>. wf_subst s \<longrightarrow> homomorphic \<theta> \<longrightarrow> solves \<theta> s
      \<longrightarrow> is_variable var \<longrightarrow> x \<noteq> var
      \<longrightarrow> \<theta> var = \<theta> x \<longrightarrow> unify_var n var x s = Some r
      \<longrightarrow> (\<exists>s'. r = Some s' \<and> solves \<theta> s'))"

definition complete_unify_lists :: "nat \<Rightarrow> bool" where
  "complete_unify_lists n = (\<forall>xs ys s r \<theta>. wf_subst s \<longrightarrow> homomorphic \<theta> \<longrightarrow> solves \<theta> s
      \<longrightarrow> map \<theta> xs = map \<theta> ys \<longrightarrow> unify_lists n xs ys s = Some r
      \<longrightarrow> (\<exists>s'. r = Some s' \<and> solves \<theta> s'))"

text \<open>
  The term that the full chase gives, where it ends; and \<open>instance_of \<sigma> \<sigma>'\<close>: applying
  \<open>\<sigma>\<close> after \<open>\<sigma>'\<close> gives what \<open>\<sigma>\<close> gives alone.
\<close>

definition nf :: "subst \<Rightarrow> trm \<Rightarrow> trm" where
  "nf s t = (THE r. chases s t r)"

definition instance_of :: "subst \<Rightarrow> subst \<Rightarrow> bool" where
  "instance_of \<sigma> \<sigma>' = (\<forall>t. \<exists>k r u. substitute k t \<sigma>' = Some r \<and> substitute k r \<sigma> = Some u
      \<and> substitute k t \<sigma> = Some u)"

text \<open>A knowledge base on which the order of iteration over the set \<open>new\<close> shows.\<close>

definition kb_order :: "clause list" where
  "kb_order =
     [Clause [Predicate ''P'' [] False],
      Clause [Predicate ''P'' [] True, Predicate ''Q'' [] False],
      Clause [Predicate ''Q'' [] True],
      Clause [Predicate ''P'' [] True, Predicate ''R'' [] False, Predicate ''S'' [] False],
      Clause [Predicate ''S'' [] True]]"

section \<open>Proofs\<close>

section \<open>Constants never become keys\<close>

lemma for_pairs_invariant:
  assumes "for_pairs f ps s = Some (Some s')" and "P s"
    and "\<And>p a b. p \<in> set ps \<Longrightarrow> P a \<Longrightarrow> f p a = Some (Some b) \<Longrightarrow> P b"
  shows "P s'"
  using assms
proof (induction ps arbitrary: s)
  case Nil
  then show ?case by simp
next
  case (Cons p ps)
  from Cons.prems(1) obtain s1 where s1: "f p s = Some (Some s1)"
    and rest: "for_pairs f ps s1 = Some (Some s')"
    by (auto split: option.splits)
  have "P s1" using Cons.prems(2,3) s1 by auto
  then show ?case using Cons.IH [OF rest] Cons.prems(3) by auto
qed

lemma new_keys_variables_refl: "new_keys_variables s s"
  by (auto simp: new_keys_variables_def)

lemma new_keys_variables_trans:
  "new_keys_variables a b \<Longrightarrow> new_keys_variables b c \<Longrightarrow> new_keys_variables a c"
  unfolding new_keys_variables_def by metis

lemma nk_unify_var_step: "nk_unify n \<Longrightarrow> nk_unify_var (Suc n)"
  unfolding nk_unify_def nk_unify_var_def
  by (auto split: option.splits bool.splits simp: new_keys_variables_def)

lemma nk_unify_lists_step:
  assumes "nk_unify n"
  shows "nk_unify_lists (Suc n)"
  unfolding nk_unify_lists_def
proof (intro allI impI)
  fix xs ys s s'
  assume "unify_lists (Suc n) xs ys s = Some (Some s')"
  then have fp: "for_pairs (\<lambda>(x, y) s. unify n x y (Some s)) (zip xs ys) s = Some (Some s')"
    by (simp split: if_splits)
  show "new_keys_variables s s'"
    by (rule for_pairs_invariant [OF fp, where P = "new_keys_variables s"])
       (use assms in \<open>auto simp: nk_unify_def intro: new_keys_variables_refl new_keys_variables_trans\<close>)
qed

lemma nk_unify_step: "nk_unify_var n \<Longrightarrow> nk_unify_lists n \<Longrightarrow> nk_unify (Suc n)"
  unfolding nk_unify_def nk_unify_var_def nk_unify_lists_def
  by (auto split: if_splits trm.splits simp: new_keys_variables_refl)

lemma nk_all: "nk_unify n \<and> nk_unify_var n \<and> nk_unify_lists n"
proof (induction n)
  case 0
  show ?case by (simp add: nk_unify_def nk_unify_var_def nk_unify_lists_def)
next
  case (Suc n)
  then show ?case by (simp add: nk_unify_var_step nk_unify_lists_step nk_unify_step)
qed

lemma unify_new_keys:
  "unify n x y (Some s) = Some (Some s') \<Longrightarrow> new_keys_variables s s'"
  using nk_all [of n] by (simp add: nk_unify_def)

lemma unify_args_new_keys:
  "unify_args n xs ys (Some s) = Some (Some s') \<Longrightarrow> new_keys_variables s s'"
  using nk_all [of "n - 1"]
  by (cases n) (auto simp: nk_unify_lists_def new_keys_variables_refl split: if_splits)

lemma not_lower_not_variable: "nm = [] \<or> \<not> is_lower (hd nm) \<Longrightarrow> \<not> is_variable (Term nm)"
  by (cases nm) auto

lemma unify_non_variables:
  assumes "\<not> is_variable x" "\<not> is_variable y" "x = Term nm \<or> y = Term nm"
    and "unify n x y (Some s) = Some (Some s')"
  shows "x = y"
  using assms by (cases n; cases x; cases y) (auto split: if_splits)

text \<open>
  C10 (as amended): a \<open>Term\<close> whose name does not begin with a lowercase letter is not a
  variable; no call of \<open>unify\<close> creates a binding for it; and it unifies with a term that is
  not a variable only when the two are equal, the substitution being returned as it was.
\<close>

theorem C10_constant_terms:
  assumes "nm = [] \<or> \<not> is_lower (hd nm)"
  shows "\<not> is_variable (Term nm)
    \<and> (\<forall>n x y s s'. unify n x y (Some s) = Some (Some s') \<longrightarrow> s (Term nm) = None
          \<longrightarrow> s' (Term nm) = None)
    \<and> (\<forall>n xs ys s s'. unify_args n xs ys (Some s) = Some (Some s') \<longrightarrow> s (Term nm) = None
          \<longrightarrow> s' (Term nm) = None)
    \<and> (\<forall>n y s s'. \<not> is_variable y \<longrightarrow>
          (unify n (Term nm) y (Some s) = Some (Some s') \<or> unify n y (Term nm) (Some s) = Some (Some s'))
          \<longrightarrow> y = Term nm \<and> s' = s)"
proof -
  have nv: "\<not> is_variable (Term nm)" using assms by (rule not_lower_not_variable)
  have a: "s' (Term nm) = None" if "unify n x y (Some s) = Some (Some s')" "s (Term nm) = None"
    for n x y s s'
    using unify_new_keys [OF that(1)] that(2) nv unfolding new_keys_variables_def by blast
  have b: "s' (Term nm) = None" if "unify_args n xs ys (Some s) = Some (Some s')" "s (Term nm) = None"
    for n xs ys s s'
    using unify_args_new_keys [OF that(1)] that(2) nv unfolding new_keys_variables_def by blast
  have c: "y = Term nm \<and> s' = s" if "\<not> is_variable y"
    "unify n (Term nm) y (Some s) = Some (Some s') \<or> unify n y (Term nm) (Some s) = Some (Some s')"
    for n y s s'
  proof -
    from that(2) have "y = Term nm"
      using unify_non_variables [OF nv that(1), of nm n s s']
        unify_non_variables [OF that(1) nv, of nm n s s'] by auto
    moreover from this that(2) have "s' = s" by (cases n) auto
    ultimately show ?thesis by simp
  qed
  from nv a b c show ?thesis by blast
qed

theorem C10_constant_terms_witness:
  "\<not> is_lower (hd ''A'') \<and> \<not> is_variable (Term ''A'')
   \<and> unify (Suc (Suc (Suc 0))) (Term ''x'') (Term ''B'') (Some Map.empty)
       = Some (Some [Term ''x'' \<mapsto> Term ''B''])
   \<and> [Term ''x'' \<mapsto> Term ''B''] (Term ''A'') = None
   \<and> unify (Suc 0) (Term ''A'') (Term ''A'') (Some Map.empty) = Some (Some Map.empty)"
proof -
  have h: "''A'' = [] \<or> \<not> is_lower (hd ''A'')" by (simp add: is_lower_def)
  have u: "unify (Suc (Suc (Suc 0))) (Term ''x'') (Term ''B'') (Some Map.empty)
       = Some (Some [Term ''x'' \<mapsto> Term ''B''])"
    by (simp add: is_lower_def)
  have e: "Map.empty (Term ''A'') = (None :: trm option)" by simp
  have v: "unify (Suc 0) (Term ''A'') (Term ''A'') (Some Map.empty) = Some (Some Map.empty)"
    by simp
  from C10_constant_terms [OF h] have n: "\<not> is_variable (Term ''A'')"
    and k: "\<And>n x y s s'. unify n x y (Some s) = Some (Some s') \<Longrightarrow> s (Term ''A'') = None
          \<Longrightarrow> s' (Term ''A'') = None"
    by blast+
  from k [OF u e] n h u v show ?thesis by simp
qed

text \<open>
  The claim as first stated fails: the term \<open>A\<close> unifies with the variable \<open>x\<close>, which
  is not equal to it, by the binding of \<open>x\<close> to \<open>A\<close>.
\<close>

theorem C10_counterexample:
  "\<not> is_lower (hd ''A'') \<and> Term ''x'' \<noteq> Term ''A''
   \<and> unify (Suc (Suc (Suc 0))) (Term ''A'') (Term ''x'') (Some Map.empty)
       = Some (Some [Term ''x'' \<mapsto> Term ''A''])"
  by (simp add: is_lower_def)

section \<open>The occurs-check\<close>

lemma py_any_False: "py_any f as = Some False \<Longrightarrow> a \<in> set as \<Longrightarrow> f a = Some False"
  by (induction as) (auto split: option.splits bool.splits)

lemma occurs_check_complete: "occurs s var x \<Longrightarrow> occurs_check n var x s \<noteq> Some False"
proof (induction arbitrary: n rule: occurs.induct)
  case occurs_same
  show ?case by (cases n) auto
next
  case (occurs_bound nm b)
  then show ?case by (cases n) auto
next
  case (occurs_arg a as f)
  then show ?case by (cases n) (auto dest: py_any_False)
qed

text \<open>
  C5: \<open>unify(Variable("x"), Function("f", [Variable("x")]), {})\<close> returns the failure
  sentinel, whatever the depth bound from 4 on; and whenever \<open>unify_var\<close> binds an unbound
  variable to a term, the variable does not occur in the term, directly or through
  bindings of the substitution.
\<close>

theorem C5_occurs_check_rejects:
  "unify (Suc (Suc (Suc (Suc n)))) (Term ''x'') (Function ''f'' [Term ''x'']) (Some Map.empty) = Some None
   \<and> (\<forall>m var x s s'. unify_var m var x s = Some (Some s') \<and> s var = None \<and> s x = None
         \<longrightarrow> \<not> occurs s var x \<and> s' = s(var \<mapsto> x))"
proof -
  have a: "unify (Suc (Suc (Suc (Suc n)))) (Term ''x'') (Function ''f'' [Term ''x'']) (Some Map.empty) = Some None"
    by (simp add: is_lower_def)
  have b: "\<not> occurs s var x \<and> s' = s(var \<mapsto> x)"
    if "unify_var m var x s = Some (Some s')" "s var = None" "s x = None" for m var x s s'
  proof (cases m)
    case 0
    with that show ?thesis by simp
  next
    case (Suc k)
    with that have "occurs_check k var x s = Some False" "s' = s(var \<mapsto> x)"
      by (auto split: option.splits bool.splits)
    then show ?thesis using occurs_check_complete [of s var x k] by blast
  qed
  from a b show ?thesis by blast
qed

theorem C5_occurs_check_rejects_witness:
  "unify (Suc (Suc (Suc (Suc 0)))) (Term ''x'') (Function ''f'' [Term ''x'']) (Some Map.empty) = Some None
   \<and> unify_var (Suc (Suc 0)) (Term ''x'') (Term ''A'') Map.empty = Some (Some [Term ''x'' \<mapsto> Term ''A''])
   \<and> \<not> occurs Map.empty (Term ''x'') (Term ''A'')"
proof -
  have u: "unify_var (Suc (Suc 0)) (Term ''x'') (Term ''A'') Map.empty
             = Some (Some [Term ''x'' \<mapsto> Term ''A''])"
    by simp
  have e: "Map.empty (Term ''x'') = (None :: trm option)" "Map.empty (Term ''A'') = (None :: trm option)"
    by simp_all
  from C5_occurs_check_rejects [of 0] u e show ?thesis by blast
qed

section \<open>The saturation loop on the two examples\<close>

lemma for_resolvents_empty:
  "res \<in> set rs \<Longrightarrow> literals res = [] \<Longrightarrow> \<exists>drv. for_resolvents rs st = Inl (''no'', drv)"
proof (induction rs arbitrary: st)
  case Nil
  then show ?case by simp
next
  case (Cons r rs)
  obtain new derived where st: "st = (new, derived)" by (cases st)
  show ?case
  proof (cases "literals r = []")
    case True
    then show ?thesis by (simp add: st)
  next
    case False
    with Cons.prems have "res \<in> set rs" by auto
    from Cons.IH [OF this Cons.prems(2)] False show ?thesis by (simp add: st)
  qed
qed

lemma for_clause_pairs_empty:
  assumes "\<forall>(a, b) \<in> set ps1. resolve lo d a b \<noteq> None"
    and "resolve lo d ci cj = Some rs" and "res \<in> set rs" and "literals res = []"
  shows "\<exists>drv. for_clause_pairs lo d (ps1 @ (ci, cj) # ps2) st = Some (Inl (''no'', drv))"
  using assms(1)
proof (induction ps1 arbitrary: st)
  case Nil
  from for_resolvents_empty [OF assms(3,4)] obtain drv where "for_resolvents rs st = Inl (''no'', drv)"
    by blast
  then show ?case by (simp add: assms(2))
next
  case (Cons p ps1)
  obtain a b where p: "p = (a, b)" by (cases p)
  from Cons.prems obtain rs' where rs': "resolve lo d a b = Some rs'" by (auto simp: p)
  show ?case
  proof (cases "for_resolvents rs' st")
    case (Inl v)
    obtain new derived where st: "st = (new, derived)" by (cases st)
    have "\<exists>drv. for_resolvents rs' (new, derived) = Inl (''no'', drv) \<or> (\<exists>st'. for_resolvents rs' (new, derived) = Inr st')"
      by (induction rs' "(new, derived)" arbitrary: new derived rule: for_resolvents.induct) auto
    with Inl st show ?thesis by (auto simp: p rs')
  next
    case (Inr st')
    from Cons.prems have "\<forall>(a, b) \<in> set ps1. resolve lo d a b \<noteq> None" by simp
    from Cons.IH [OF this, of st'] Inr show ?thesis by (simp add: p rs')
  qed
qed

lemma literal_order_Nil:
  assumes "literal_order lo"
  shows "lo [] = []"
proof -
  from assms have "set (lo []) = set []" unfolding literal_order_def by blast
  then show ?thesis by simp
qed

lemma pairs_two: "pairs [a, b] = [(a, b)]"
  by (simp add: pairs_def upt_rec)

lemma unify_args_kb_contradiction:
  "unify_args (Suc (Suc (Suc (Suc (Suc d))))) [Term ''x''] [Term ''A''] (Some Map.empty)
     = Some (Some [Term ''x'' \<mapsto> Term ''A''])"
  by (simp add: is_lower_def)

lemma resolve_kb_contradiction:
  assumes "literal_order lo"
  shows "resolve lo (Suc (Suc (Suc (Suc (Suc d))))) (Clause [Predicate ''P'' [Term ''x''] False])
     (Clause [Predicate ''P'' [Term ''A''] True]) = Some [Clause []]"
  unfolding resolve_def resolve_literals_def
  by (simp add: unify_args_kb_contradiction literal_order_Nil [OF assms] del: unify_args.simps)

lemma resolve_kb_saturated:
  "resolve lo d (Clause [Predicate ''P'' [Term ''A''] False])
     (Clause [Predicate ''Q'' [Term ''B''] False]) = Some []"
  unfolding resolve_def resolve_literals_def by simp

lemma set_of_list_two:
  "set_of_list [a, b] = (if clause_eq b a then [a] else [a, b])"
  by (simp add: set_of_list_def set_add_def clause_member_def)

text \<open>
  C2: when a round reaches a pair of clauses one of whose resolvents has no literal, the
  loop returns the verdict \<open>no\<close>, whatever pairs are left in the round and whatever rounds
  are left; for the knowledge base \<open>{P(x)}, {!P(A)}\<close> the two clauses resolve to the empty
  clause and \<open>resolution\<close> returns \<open>no\<close>.
\<close>

theorem C2_empty_clause_no:
  "(\<forall>lo co d r clauses derived ps1 ci cj ps2 rs res.
      pairs clauses = ps1 @ (ci, cj) # ps2 \<and> (\<forall>(a, b) \<in> set ps1. resolve lo d a b \<noteq> None)
      \<and> resolve lo d ci cj = Some rs \<and> res \<in> set rs \<and> literals res = []
      \<longrightarrow> (\<exists>drv. saturate lo co d (Suc r) clauses derived = Some (''no'', drv)))
   \<and> (\<forall>lo co d r. literal_order lo \<longrightarrow>
        unify_args (Suc (Suc (Suc (Suc (Suc d))))) [Term ''x''] [Term ''A''] (Some Map.empty)
          = Some (Some [Term ''x'' \<mapsto> Term ''A''])
        \<and> resolve lo (Suc (Suc (Suc (Suc (Suc d))))) (Clause [Predicate ''P'' [Term ''x''] False])
            (Clause [Predicate ''P'' [Term ''A''] True]) = Some [Clause []]
        \<and> resolution lo co (Suc (Suc (Suc (Suc (Suc d))))) (Suc r) kb_contradiction = Some ''no'')"
proof -
  have general: "\<exists>drv. saturate lo co d (Suc r) clauses derived = Some (''no'', drv)"
    if pc: "pairs clauses = ps1 @ (ci, cj) # ps2"
      and rest: "\<forall>(a, b) \<in> set ps1. resolve lo d a b \<noteq> None"
      "resolve lo d ci cj = Some rs" "res \<in> set rs" "literals res = []"
    for lo co d r clauses derived ps1 ci cj ps2 rs res
  proof -
    from for_clause_pairs_empty [OF rest, of ps2 "([], derived)"] obtain drv
      where "for_clause_pairs lo d (pairs clauses) ([], derived) = Some (Inl (''no'', drv))"
      by (auto simp: pc)
    then show ?thesis by simp
  qed
  have example: "resolution lo co (Suc (Suc (Suc (Suc (Suc d))))) (Suc r) kb_contradiction = Some ''no''"
    if lo: "literal_order lo" for lo co d r
  proof -
    let ?c1 = "Clause [Predicate ''P'' [Term ''x''] False]"
    let ?c2 = "Clause [Predicate ''P'' [Term ''A''] True]"
    have p: "pairs kb_contradiction = [] @ (?c1, ?c2) # []"
      by (simp add: kb_contradiction_def pairs_two)
    have "\<exists>drv. saturate lo co (Suc (Suc (Suc (Suc (Suc d))))) (Suc r) kb_contradiction
              (set_of_list kb_contradiction) = Some (''no'', drv)"
      by (rule general [OF p _ resolve_kb_contradiction [OF lo], where res = "Clause []"]) simp_all
    then show ?thesis unfolding resolution_def resolution_run_def by auto
  qed
  from general example unify_args_kb_contradiction resolve_kb_contradiction show ?thesis
    by blast
qed

theorem C2_empty_clause_no_witness:
  "literal_order remdups
   \<and> resolution remdups id (Suc (Suc (Suc (Suc (Suc 0))))) (Suc 0) kb_contradiction = Some ''no''"
proof -
  have lo: "literal_order remdups" by (simp add: literal_order_def)
  from C2_empty_clause_no lo show ?thesis by blast
qed

text \<open>
  C3: for the knowledge base \<open>{P(A)}, {Q(B)}\<close> the two literals are not complementary, the
  one pair of clauses has no resolvent, the first round ends with the set \<open>new\<close> empty, and
  \<open>resolution\<close> returns \<open>yes\<close> after that round.
\<close>

theorem C3_saturated_yes:
  "\<not> (name (Predicate ''P'' [Term ''A''] False) = name (Predicate ''Q'' [Term ''B''] False)
       \<and> negated (Predicate ''P'' [Term ''A''] False) \<noteq> negated (Predicate ''Q'' [Term ''B''] False))
   \<and> for_clause_pairs lo d (pairs kb_saturated) ([], set_of_list kb_saturated)
       = Some (Inr ([], set_of_list kb_saturated))
   \<and> resolution lo co d (Suc 0) kb_saturated = Some ''yes''
   \<and> resolution lo co d (Suc r) kb_saturated = Some ''yes''"
proof -
  have p: "pairs kb_saturated
      = [(Clause [Predicate ''P'' [Term ''A''] False], Clause [Predicate ''Q'' [Term ''B''] False])]"
    by (simp add: kb_saturated_def pairs_two)
  have round: "for_clause_pairs lo d (pairs kb_saturated) ([], set_of_list kb_saturated)
       = Some (Inr ([], set_of_list kb_saturated))"
    unfolding p by (simp add: resolve_kb_saturated)
  have "saturate lo co d (Suc k) kb_saturated (set_of_list kb_saturated)
       = Some (''yes'', set_of_list kb_saturated)" for k
    by (simp add: round)
  then have "resolution lo co d (Suc k) kb_saturated = Some ''yes''" for k
    by (simp add: resolution_def resolution_run_def)
  with round show ?thesis by simp
qed

theorem C3_saturated_yes_witness:
  "resolution remdups id 0 (Suc 0) kb_saturated = Some ''yes''"
  using C3_saturated_yes [of remdups 0 id 0] by blast


section \<open>Substitutions built by unify\<close>

lemma those_map_Some:
  "those (map f as) = Some rs \<longleftrightarrow> list_all2 (\<lambda>a r. f a = Some r) as rs"
proof (induction as arbitrary: rs)
  case Nil
  show ?case by auto
next
  case (Cons a as)
  show ?case
    by (cases rs) (auto simp: Cons.IH split: option.splits)
qed

lemma substitute_mono:
  "substitute n t s = Some r \<Longrightarrow> n \<le> m \<Longrightarrow> substitute m t s = Some r"
proof (induction n arbitrary: t r m)
  case 0
  then show ?case by simp
next
  case (Suc n)
  from Suc.prems(2) obtain k where m: "m = Suc k" and nk: "n \<le> k" by (cases m) auto
  show ?case
  proof (cases "s t")
    case (Some b)
    with Suc.prems(1) have "substitute n b s = Some r" by simp
    from Suc.IH [OF this nk] Some show ?thesis by (simp add: m)
  next
    case None
    show ?thesis
    proof (cases t)
      case (Term nm)
      with None Suc.prems(1) show ?thesis by (auto simp: m)
    next
      case (Function f as)
      with None Suc.prems(1) obtain rs where r: "r = Function f rs"
        and rs: "list_all2 (\<lambda>a r. substitute n a s = Some r) as rs"
        by (auto simp: those_map_Some)
      from rs have "list_all2 (\<lambda>a r. substitute k a s = Some r) as rs"
        by (rule list_all2_mono) (rule Suc.IH [OF _ nk])
      with None Function r show ?thesis by (simp add: m those_map_Some [THEN iffD2])
    qed
  qed
qed

lemma substitute_chases: "substitute n t s = Some r \<Longrightarrow> chases s t r"
proof (induction n arbitrary: t r)
  case 0
  then show ?case by simp
next
  case (Suc n)
  show ?case
  proof (cases "s t")
    case (Some b)
    with Suc.prems have "substitute n b s = Some r" by simp
    then show ?thesis using Some Suc.IH by (blast intro: chases_bound)
  next
    case None
    show ?thesis
    proof (cases t)
      case (Term nm)
      with None Suc.prems show ?thesis by (auto intro: chases_term)
    next
      case (Function f as)
      with None Suc.prems obtain rs where r: "r = Function f rs"
        and rs: "list_all2 (\<lambda>a r. substitute n a s = Some r) as rs"
        by (auto simp: those_map_Some)
      from rs have "list_all2 (chases s) as rs"
        by (rule list_all2_mono) (rule Suc.IH)
      with None Function r show ?thesis by (auto intro: chases_function)
    qed
  qed
qed

lemma list_all2_common_fuel:
  fixes f :: "nat \<Rightarrow> 'a \<Rightarrow> 'b option"
  assumes "list_all2 (\<lambda>a r. \<exists>n. f n a = Some r) as rs"
    and mono: "\<And>n m a r. f n a = Some r \<Longrightarrow> n \<le> m \<Longrightarrow> f m a = Some r"
  shows "\<exists>n. list_all2 (\<lambda>a r. f n a = Some r) as rs"
  using assms(1)
proof (induction rule: list_all2_induct)
  case Nil
  show ?case by simp
next
  case (Cons a as r rs)
  then obtain n1 n2 where n1: "f n1 a = Some r" and n2: "list_all2 (\<lambda>a r. f n2 a = Some r) as rs"
    by blast
  have "f (max n1 n2) a = Some r" using n1 by (rule mono) simp
  moreover have "list_all2 (\<lambda>a r. f (max n1 n2) a = Some r) as rs"
    using n2 by (rule list_all2_mono) (rule mono, assumption, simp)
  ultimately show ?case by auto
qed

lemma chases_substitute: "chases s t r \<Longrightarrow> \<exists>n. substitute n t s = Some r"
proof (induction rule: chases.induct)
  case (chases_bound t b r)
  then obtain n where "substitute n b s = Some r" by blast
  with chases_bound.hyps(1) have "substitute (Suc n) t s = Some r" by simp
  then show ?case by blast
next
  case (chases_term nm)
  then have "substitute (Suc 0) (Term nm) s = Some (Term nm)" by simp
  then show ?case by blast
next
  case (chases_function f as rs)
  from chases_function.IH have "list_all2 (\<lambda>a r. \<exists>n. substitute n a s = Some r) as rs"
    by (rule list_all2_mono) blast
  then have "\<exists>n. list_all2 (\<lambda>a r. substitute n a s = Some r) as rs"
    by (rule list_all2_common_fuel [where f = "\<lambda>n a. substitute n a s"])
       (rule substitute_mono)
  then obtain n where "list_all2 (\<lambda>a r. substitute n a s = Some r) as rs" ..
  with chases_function.hyps have "substitute (Suc n) (Function f as) s = Some (Function f rs)"
    by (simp add: those_map_Some [THEN iffD2])
  then show ?case by blast
qed

lemma chases_iff: "chases s t r \<longleftrightarrow> (\<exists>n. substitute n t s = Some r)"
  using chases_substitute substitute_chases by blast

lemma chases_unique: "chases s t r \<Longrightarrow> chases s t r' \<Longrightarrow> r = r'"
proof -
  assume "chases s t r" "chases s t r'"
  then obtain n m where "substitute n t s = Some r" "substitute m t s = Some r'"
    by (auto simp: chases_iff)
  then have "substitute (max n m) t s = Some r" "substitute (max n m) t s = Some r'"
    using substitute_mono [of n t s r "max n m"] substitute_mono [of m t s r' "max n m"]
    by simp_all
  then show ?thesis by simp
qed

lemma var_keys_Function: "var_keys s \<Longrightarrow> s (Function f as) = None"
  unfolding var_keys_def by (metis is_variable.simps(2))

lemma var_keys_not_variable: "var_keys s \<Longrightarrow> \<not> is_variable t \<Longrightarrow> s t = None"
  unfolding var_keys_def by blast

lemma chases_bound_iff: "s t = Some b \<Longrightarrow> chases s t r \<longleftrightarrow> chases s b r"
  by (auto intro: chases_bound elim: chases.cases)

lemma chases_unbound_Term: "s (Term nm) = None \<Longrightarrow> chases s (Term nm) r \<longleftrightarrow> r = Term nm"
  by (auto intro: chases_term elim: chases.cases)

lemma chases_unbound_Function:
  "s (Function f as) = None \<Longrightarrow>
   chases s (Function f as) r \<longleftrightarrow> (\<exists>rs. r = Function f rs \<and> list_all2 (chases s) as rs)"
  by (auto intro: chases_function elim: chases.cases)

lemma list_all2_exists:
  "(\<And>a. a \<in> set as \<Longrightarrow> \<exists>r. P a r) \<Longrightarrow> \<exists>rs. list_all2 P as rs"
proof (induction as)
  case Nil
  show ?case by simp
next
  case (Cons a as)
  then obtain r rs where "P a r" "list_all2 P as rs" by (metis list.set_intros)
  then have "list_all2 P (a # as) (r # rs)" by simp
  then show ?case by blast
qed

lemma wf_subst_empty: "wf_subst Map.empty"
proof -
  have "\<exists>r. chases Map.empty t r" for t
  proof (induction t)
    case (Term nm)
    show ?case by (auto intro: chases_term)
  next
    case (Function f as)
    then obtain rs where "list_all2 (chases Map.empty) as rs"
      using list_all2_exists [of as "chases Map.empty"] by blast
    then show ?case by (auto intro: chases_function)
  qed
  then show ?thesis by (simp add: wf_subst_def var_keys_def)
qed

lemma chases_ext:
  "chases s t r \<Longrightarrow> s \<subseteq>\<^sub>m s' \<Longrightarrow> var_keys s' \<Longrightarrow> chases s' r r' \<Longrightarrow> chases s' t r'"
proof (induction arbitrary: r' rule: chases.induct)
  case (chases_bound t b r)
  from chases_bound.hyps(1) chases_bound.prems(1) have "s' t = Some b"
    by (auto simp: map_le_def dom_def)
  with chases_bound show ?case by (simp add: chases_bound_iff)
next
  case (chases_term nm)
  then show ?case by simp
next
  case (chases_function f as rs)
  have vk: "s' (Function g bs) = None" for g bs
    using chases_function.prems(2) by (rule var_keys_Function)
  from chases_function.prems(3) obtain rs' where r': "r' = Function f rs'"
    and rs': "list_all2 (chases s') rs rs'"
    by (auto simp: chases_unbound_Function vk)
  have "list_all2 (chases s') as rs'"
    using chases_function.IH rs' chases_function.prems(1,2)
  proof (induction as rs arbitrary: rs' rule: list_all2_induct)
    case Nil
    then show ?case by simp
  next
    case (Cons a as r rs)
    from Cons.prems(1) obtain q qs where "rs' = q # qs" "chases s' r q" "list_all2 (chases s') rs qs"
      by (cases rs') auto
    with Cons show ?case by auto
  qed
  then show ?case by (simp add: r' chases_unbound_Function vk)
qed

lemma agree_ext:
  assumes "agree s x y" "s \<subseteq>\<^sub>m s'" "wf_subst s'"
  shows "agree s' x y"
proof -
  from assms(1) obtain r where r: "chases s x r" "chases s y r" by (auto simp: agree_def)
  from assms(3) obtain r' where r': "chases s' r r'" by (auto simp: wf_subst_def)
  from assms(3) have vk: "var_keys s'" by (simp add: wf_subst_def)
  from chases_ext [OF r(1) assms(2) vk r'] chases_ext [OF r(2) assms(2) vk r']
  show ?thesis by (auto simp: agree_def)
qed

lemma py_any_Some_False: "py_any f as = Some False \<longleftrightarrow> (\<forall>a \<in> set as. f a = Some False)"
  by (induction as) (auto split: option.splits bool.splits)

lemma occurs_check_False_leaves:
  "chases s x r \<Longrightarrow> var_keys s \<Longrightarrow> is_variable var \<Longrightarrow> occurs_check n var x s = Some False
     \<Longrightarrow> var \<notin> leaves r"
proof (induction arbitrary: n rule: chases.induct)
  case (chases_bound t b r)
  from chases_bound.prems(3) obtain k where n: "n = Suc k" by (cases n) auto
  from chases_bound.prems(1) chases_bound.hyps(1) obtain nm where "t = Term nm"
    by (cases t) (auto simp: var_keys_Function)
  with chases_bound.prems(3) chases_bound.hyps(1) have "occurs_check k var b s = Some False"
    by (auto simp: n split: if_splits)
  with chases_bound show ?case by blast
next
  case (chases_term nm)
  then show ?case by (cases n) (auto split: if_splits)
next
  case (chases_function f as rs)
  from chases_function.prems(3) obtain k where n: "n = Suc k" by (cases n) auto
  from chases_function.prems(3)
  have all: "\<forall>a \<in> set as. occurs_check k var a s = Some False"
    by (auto simp: n py_any_Some_False split: if_splits)
  have "\<forall>r \<in> set rs. var \<notin> leaves r"
    using chases_function.IH all
  proof (induction as rs rule: list_all2_induct)
    case Nil
    then show ?case by simp
  next
    case (Cons a as r rs)
    with chases_function.prems(1,2) show ?case by auto
  qed
  then show ?case by simp
qed

lemma list_all2_set1: "list_all2 P as rs \<Longrightarrow> a \<in> set as \<Longrightarrow> \<exists>q \<in> set rs. P a q"
  by (induction rule: list_all2_induct) auto

lemma list_all2_set2: "list_all2 P as rs \<Longrightarrow> q \<in> set rs \<Longrightarrow> \<exists>a \<in> set as. P a q"
  by (induction rule: list_all2_induct) auto

lemma chases_leaves_unbound: "chases s t r \<Longrightarrow> l \<in> leaves r \<Longrightarrow> s l = None"
proof (induction rule: chases.induct)
  case (chases_function f as rs)
  from chases_function.prems obtain q where "q \<in> set rs" "l \<in> leaves q" by auto
  with chases_function.IH show ?case
    by (auto simp: list_all2_conv_all_nth in_set_conv_nth)
qed auto

lemma chases_extend_avoid:
  assumes s': "\<And>t. t \<noteq> var \<Longrightarrow> s' t = s t" and var: "s var = None" "is_variable var"
  shows "chases s t r \<Longrightarrow> var \<notin> leaves r \<Longrightarrow> chases s' t r"
proof (induction rule: chases.induct)
  case (chases_bound t b r)
  from chases_bound.hyps(1) var(1) have "t \<noteq> var" by auto
  with s'(1) chases_bound.hyps(1) have "s' t = Some b" by simp
  with chases_bound show ?case by (simp add: chases_bound_iff)
next
  case (chases_term nm)
  with s' have "s' (Term nm) = None" by auto
  then show ?case by (rule chases.chases_term)
next
  case (chases_function f as rs)
  have "list_all2 (chases s') as rs"
    using chases_function.IH
  proof (rule list.rel_mono_strong)
    fix a r
    assume "r \<in> set rs" and "chases s a r \<and> (var \<notin> leaves r \<longrightarrow> chases s' a r)"
    with chases_function.prems show "chases s' a r" by auto
  qed
  moreover from var(2) have "Function f as \<noteq> var" by auto
  with s' chases_function.hyps have "s' (Function f as) = None" by simp
  ultimately show ?case by (rule chases.chases_function [rotated])
qed

lemma chases_extend:
  assumes s': "\<And>t. t \<noteq> var \<Longrightarrow> s' t = s t" "s' var = Some x"
    and var: "s var = None" "is_variable var" and X: "chases s' x X"
  shows "chases s t r \<Longrightarrow> \<exists>r'. chases s' t r' \<and> leaves r' \<subseteq> (leaves r - {var}) \<union> leaves X"
proof (induction rule: chases.induct)
  case (chases_bound t b r)
  from chases_bound.hyps(1) var(1) have "t \<noteq> var" by auto
  with s'(1) chases_bound.hyps(1) have "s' t = Some b" by simp
  with chases_bound.IH show ?case by (auto simp: chases_bound_iff)
next
  case (chases_term nm)
  show ?case
  proof (cases "Term nm = var")
    case True
    have "chases s' var X" using X s'(2) by (simp add: chases_bound_iff)
    then have "chases s' (Term nm) X" using True by simp
    then show ?thesis by blast
  next
    case False
    with chases_term s' have "s' (Term nm) = None" by auto
    then have "chases s' (Term nm) (Term nm)" by (rule chases.chases_term)
    moreover have "leaves (Term nm) \<subseteq> (leaves (Term nm) - {var}) \<union> leaves X"
      using False by auto
    ultimately show ?thesis by blast
  qed
next
  case (chases_function f as rs)
  have "\<exists>rs'. list_all2 (chases s') as rs'
          \<and> (\<Union>q \<in> set rs'. leaves q) \<subseteq> ((\<Union>q \<in> set rs. leaves q) - {var}) \<union> leaves X"
    using chases_function.IH
  proof (induction as rs rule: list_all2_induct)
    case Nil
    show ?case by simp
  next
    case (Cons a as r rs)
    from Cons.IH Cons.prems obtain rs' where rs': "list_all2 (chases s') as rs'"
      "(\<Union>q \<in> set rs'. leaves q) \<subseteq> ((\<Union>q \<in> set rs. leaves q) - {var}) \<union> leaves X"
      by auto
    from Cons.hyps(1) obtain r' where r': "chases s' a r'"
      "leaves r' \<subseteq> (leaves r - {var}) \<union> leaves X"
      by auto
    have "list_all2 (chases s') (a # as) (r' # rs')" using r'(1) rs'(1) by simp
    moreover have "(\<Union>q \<in> set (r' # rs'). leaves q)
        \<subseteq> ((\<Union>q \<in> set (r # rs). leaves q) - {var}) \<union> leaves X"
      using r'(2) rs'(2) by auto
    ultimately show ?case by blast
  qed
  then obtain rs' where rs': "list_all2 (chases s') as rs'"
    "(\<Union>q \<in> set rs'. leaves q) \<subseteq> ((\<Union>q \<in> set rs. leaves q) - {var}) \<union> leaves X"
    by blast
  from var(2) have "Function f as \<noteq> var" by auto
  with s'(1) chases_function.hyps have "s' (Function f as) = None" by simp
  with rs'(1) have "chases s' (Function f as) (Function f rs')"
    by (auto intro: chases.chases_function)
  moreover from rs'(2)
  have "leaves (Function f rs') \<subseteq> (leaves (Function f rs) - {var}) \<union> leaves X" by simp
  ultimately show ?case by blast
qed

lemma nleaves_mono: "T \<subseteq> T' \<Longrightarrow> nleaves s T \<subseteq> nleaves s T'"
  by (auto simp: nleaves_def)

lemma nleaves_Un: "nleaves s (A \<union> B) = nleaves s A \<union> nleaves s B"
  by (auto simp: nleaves_def)

lemma nleaves_bound: "s t = Some b \<Longrightarrow> nleaves s {t} = nleaves s {b}"
  by (simp add: nleaves_def chases_bound_iff)

lemma nleaves_Function:
  assumes "wf_subst s"
  shows "nleaves s {Function f as} = nleaves s (set as)"
proof -
  from assms have vk: "s (Function f as) = None" by (simp add: wf_subst_def var_keys_Function)
  from assms obtain r0 where "chases s (Function f as) r0" by (auto simp: wf_subst_def)
  then obtain rs0 where rs0: "list_all2 (chases s) as rs0"
    by (auto simp: chases_unbound_Function vk)
  have "(\<exists>r. chases s (Function f as) r \<and> l \<in> leaves r)
      \<longleftrightarrow> (\<exists>a \<in> set as. \<exists>r. chases s a r \<and> l \<in> leaves r)" for l
  proof
    assume "\<exists>r. chases s (Function f as) r \<and> l \<in> leaves r"
    then obtain rs q where rs: "list_all2 (chases s) as rs" "q \<in> set rs" "l \<in> leaves q"
      by (auto simp: chases_unbound_Function vk)
    from list_all2_set2 [OF rs(1,2)] rs(3)
    show "\<exists>a \<in> set as. \<exists>r. chases s a r \<and> l \<in> leaves r" by blast
  next
    assume "\<exists>a \<in> set as. \<exists>r. chases s a r \<and> l \<in> leaves r"
    then obtain a r where a: "a \<in> set as" "chases s a r" "l \<in> leaves r" by blast
    from list_all2_set1 [OF rs0 a(1)] obtain q where q: "q \<in> set rs0" "chases s a q" by blast
    with a(2) have "q = r" by (auto dest: chases_unique)
    with q(1) a(3) have "l \<in> leaves (Function f rs0)" by auto
    moreover have "chases s (Function f as) (Function f rs0)"
      using rs0 vk by (auto intro: chases_function)
    ultimately show "\<exists>r. chases s (Function f as) r \<and> l \<in> leaves r" by blast
  qed
  then show ?thesis by (auto simp: nleaves_def)
qed

lemma leaves_within_refl: "leaves_within s s W"
  by (auto simp: leaves_within_def dest: chases_unique)

lemma ok_refl: "wf_subst s \<Longrightarrow> ok s s W"
  by (simp add: ok_def leaves_within_refl)

lemma ok_mono: "ok s s' W \<Longrightarrow> W \<subseteq> W' \<Longrightarrow> ok s s' W'"
  unfolding ok_def leaves_within_def by blast

lemma ok_trans:
  assumes "ok s s1 W1" "ok s1 s2 W2" "W1 \<subseteq> W" "W2 \<subseteq> W"
  shows "ok s s2 W"
proof -
  from assms(1,2) have wf1: "wf_subst s1" and wf2: "wf_subst s2" and le: "s \<subseteq>\<^sub>m s1" "s1 \<subseteq>\<^sub>m s2"
    by (simp_all add: ok_def)
  have "leaves r'' \<subseteq> leaves r \<union> W" if "chases s t r" "chases s2 t r''" for t r r''
  proof -
    from wf1 obtain r' where r': "chases s1 t r'" by (auto simp: wf_subst_def)
    from assms(1) that(1) r' have "leaves r' \<subseteq> leaves r \<union> W1"
      by (auto simp: ok_def leaves_within_def)
    moreover from assms(2) that(2) r' have "leaves r'' \<subseteq> leaves r' \<union> W2"
      by (auto simp: ok_def leaves_within_def)
    ultimately show ?thesis using assms(3,4) by blast
  qed
  then have lw: "leaves_within s s2 W" by (auto simp: leaves_within_def)
  have ch: "s2 = s \<or> (\<exists>v \<in> W. s2 v \<noteq> None)"
  proof (cases "s1 = s")
    case True
    with assms(2,4) show ?thesis by (auto simp: ok_def)
  next
    case False
    with assms(1,3) obtain v where "v \<in> W" "s1 v \<noteq> None" by (auto simp: ok_def)
    with le(2) have "v \<in> W" "s2 v \<noteq> None" by (auto simp: map_le_def dom_def)
    then show ?thesis by blast
  qed
  from wf2 le lw ch show ?thesis by (auto simp: ok_def intro: map_le_trans)
qed

lemma nleaves_grow:
  assumes "wf_subst s" "leaves_within s s1 W"
  shows "nleaves s1 T \<subseteq> nleaves s T \<union> W"
proof
  fix l
  assume "l \<in> nleaves s1 T"
  then obtain t r' where t: "t \<in> T" "chases s1 t r'" "l \<in> leaves r'" by (auto simp: nleaves_def)
  from assms(1) obtain r where r: "chases s t r" by (auto simp: wf_subst_def)
  with assms(2) t(2) have "leaves r' \<subseteq> leaves r \<union> W" by (auto simp: leaves_within_def)
  with t r show "l \<in> nleaves s T \<union> W" by (auto simp: nleaves_def)
qed

lemma wf_extend:
  assumes wf: "wf_subst s" and var: "s var = None" "is_variable var"
    and oc: "occurs_check n var x s = Some False"
  shows "ok s (s(var \<mapsto> x)) (nleaves s {var, x})" and "agree (s(var \<mapsto> x)) var x"
proof -
  let ?s' = "s(var \<mapsto> x)"
  from wf have vk: "var_keys s" by (simp add: wf_subst_def)
  from wf obtain X where X: "chases s x X" by (auto simp: wf_subst_def)
  from occurs_check_False_leaves [OF X vk var(2) oc] have nl: "var \<notin> leaves X" .
  have upd: "?s' t = s t" if "t \<noteq> var" for t using that by simp
  have upd2: "?s' var = Some x" by simp
  from chases_extend_avoid [OF upd var X nl] have X': "chases ?s' x X" .
  have vk': "var_keys ?s'" using vk var(2) by (auto simp: var_keys_def)
  have tot: "\<exists>r'. chases ?s' t r'" for t
  proof -
    from wf obtain r where "chases s t r" by (auto simp: wf_subst_def)
    from chases_extend [OF upd upd2 var X' this] show ?thesis by blast
  qed
  have wf': "wf_subst ?s'" using vk' tot by (simp add: wf_subst_def)
  have le: "s \<subseteq>\<^sub>m ?s'" using var(1) by (auto simp: map_le_def)
  have "leaves r' \<subseteq> leaves r \<union> nleaves s {var, x}" if "chases s t r" "chases ?s' t r'" for t r r'
  proof -
    from chases_extend [OF upd upd2 var X' that(1)] obtain q where q: "chases ?s' t q"
      "leaves q \<subseteq> (leaves r - {var}) \<union> leaves X" by blast
    from q(1) that(2) have "q = r'" by (rule chases_unique)
    moreover have "leaves X \<subseteq> nleaves s {var, x}" using X by (auto simp: nleaves_def)
    ultimately show ?thesis using q(2) by blast
  qed
  then have lw: "leaves_within s ?s' (nleaves s {var, x})" by (auto simp: leaves_within_def)
  obtain nm where nm: "var = Term nm" using var(2) by (cases var) auto
  have "chases s var var" using var(1) by (auto simp: nm intro: chases_term)
  then have "var \<in> nleaves s {var, x}" by (auto simp: nleaves_def nm)
  moreover have "?s' var \<noteq> None" by simp
  ultimately show "ok s ?s' (nleaves s {var, x})" using wf' le lw unfolding ok_def by blast
  have "chases ?s' var X" using X' by (simp add: chases_bound_iff)
  with X' show "agree ?s' var x" by (auto simp: agree_def)
qed

lemma nleaves_pair: "nleaves s {a, b} = nleaves s {a} \<union> nleaves s {b}"
  by (auto simp: nleaves_def)

lemma agree_refl: "wf_subst s \<Longrightarrow> agree s x x"
  by (auto simp: agree_def wf_subst_def)

lemma agree_sym: "agree s x y \<Longrightarrow> agree s y x"
  by (auto simp: agree_def)

lemma agree_bound1: "s v = Some b \<Longrightarrow> agree s v x \<longleftrightarrow> agree s b x"
  by (simp add: agree_def chases_bound_iff)

lemma agree_bound2: "s v = Some b \<Longrightarrow> agree s x v \<longleftrightarrow> agree s x b"
  by (simp add: agree_def chases_bound_iff)

lemma agree_lists:
  "list_all2 (agree s) xs ys \<Longrightarrow> \<exists>rs. list_all2 (chases s) xs rs \<and> list_all2 (chases s) ys rs"
proof (induction rule: list_all2_induct)
  case Nil
  show ?case by simp
next
  case (Cons x xs y ys)
  then obtain r rs where "chases s x r" "chases s y r"
    "list_all2 (chases s) xs rs" "list_all2 (chases s) ys rs"
    by (auto simp: agree_def)
  then have "list_all2 (chases s) (x # xs) (r # rs) \<and> list_all2 (chases s) (y # ys) (r # rs)"
    by simp
  then show ?case by blast
qed

lemma agree_Function:
  assumes "var_keys s" "list_all2 (agree s) xs ys"
  shows "agree s (Function f xs) (Function f ys)"
proof -
  from agree_lists [OF assms(2)] obtain rs where
    "list_all2 (chases s) xs rs" "list_all2 (chases s) ys rs" by blast
  then have "chases s (Function f xs) (Function f rs)" "chases s (Function f ys) (Function f rs)"
    using var_keys_Function [OF assms(1)] by (auto intro: chases_function)
  then show ?thesis by (auto simp: agree_def)
qed

lemma map_le_Some: "s \<subseteq>\<^sub>m s' \<Longrightarrow> s k = Some v \<Longrightarrow> s' k = Some v"
  by (auto simp: map_le_def dom_def)

lemma sound_unify_var_step:
  assumes IH: "sound_unify n"
  shows "sound_unify_var (Suc n)"
  unfolding sound_unify_var_def
proof (intro allI impI)
  fix var x s s'
  assume wf: "wf_subst s" and var: "is_variable var"
    and res: "unify_var (Suc n) var x s = Some (Some s')"
  show "ok s s' (nleaves s {var, x}) \<and> agree s' var x"
  proof (cases "s var")
    case (Some b)
    with res have "unify n b x (Some s) = Some (Some s')" by simp
    with IH wf have r: "ok s s' (nleaves s {b, x})" "agree s' b x"
      by (auto simp: sound_unify_def)
    from r(1) Some have "s' var = Some b" by (auto simp: ok_def intro: map_le_Some)
    with r(2) have "agree s' var x" by (simp add: agree_bound1)
    moreover have "nleaves s {b, x} = nleaves s {var, x}"
      using nleaves_bound [of s var b] Some
      by (simp add: nleaves_pair [of s var x] nleaves_pair [of s b x])
    ultimately show ?thesis using r(1) by simp
  next
    case None
    show ?thesis
    proof (cases "s x")
      case (Some b)
      with None res have "unify n var b (Some s) = Some (Some s')" by simp
      with IH wf have r: "ok s s' (nleaves s {var, b})" "agree s' var b"
        by (auto simp: sound_unify_def)
      from r(1) Some have "s' x = Some b" by (auto simp: ok_def intro: map_le_Some)
      with r(2) have "agree s' var x" by (simp add: agree_bound2)
      moreover have "nleaves s {var, b} = nleaves s {var, x}"
        using nleaves_bound [of s x b] Some
        by (simp add: nleaves_pair [of s var x] nleaves_pair [of s var b])
      ultimately show ?thesis using r(1) by simp
    next
      case xNone: None
      with None res have oc: "occurs_check n var x s = Some False" and s': "s' = s(var \<mapsto> x)"
        by (auto split: option.splits bool.splits)
      from wf_extend [OF wf None var oc] show ?thesis by (simp add: s')
    qed
  qed
qed

lemma for_pairs_sound:
  assumes IH: "sound_unify n"
  shows "length xs = length ys \<Longrightarrow> wf_subst s
    \<Longrightarrow> for_pairs (\<lambda>(x, y) s. unify n x y (Some s)) (zip xs ys) s = Some (Some s')
    \<Longrightarrow> ok s s' (nleaves s (set xs \<union> set ys)) \<and> list_all2 (agree s') xs ys"
proof (induction xs ys arbitrary: s rule: list_induct2)
  case Nil
  then show ?case by (simp add: ok_refl)
next
  case (Cons x xs y ys)
  from Cons.prems(2) obtain s1 where s1: "unify n x y (Some s) = Some (Some s1)"
    and rest: "for_pairs (\<lambda>(x, y) s. unify n x y (Some s)) (zip xs ys) s1 = Some (Some s')"
    by (auto split: option.splits)
  from IH Cons.prems(1) s1 have h: "ok s s1 (nleaves s {x, y})" "agree s1 x y"
    by (auto simp: sound_unify_def)
  then have wf1: "wf_subst s1" by (simp add: ok_def)
  from Cons.IH [OF wf1 rest] have t: "ok s1 s' (nleaves s1 (set xs \<union> set ys))"
    "list_all2 (agree s') xs ys" by simp_all
  let ?W = "nleaves s (set (x # xs) \<union> set (y # ys))"
  have w1: "nleaves s {x, y} \<subseteq> ?W" by (rule nleaves_mono) auto
  have "nleaves s1 (set xs \<union> set ys) \<subseteq> nleaves s (set xs \<union> set ys) \<union> nleaves s {x, y}"
    using h(1) by (intro nleaves_grow [OF Cons.prems(1)]) (simp add: ok_def)
  moreover have "nleaves s (set xs \<union> set ys) \<subseteq> ?W" by (rule nleaves_mono) auto
  ultimately have w2: "nleaves s1 (set xs \<union> set ys) \<subseteq> ?W" using w1 by blast
  have "ok s s' ?W" by (rule ok_trans [OF h(1) t(1) w1 w2])
  moreover have "agree s' x y"
    using h(2) t(1) by (auto simp: ok_def intro: agree_ext)
  ultimately show ?case using t(2) by simp
qed

lemma sound_unify_lists_step: "sound_unify n \<Longrightarrow> sound_unify_lists (Suc n)"
  unfolding sound_unify_lists_def
  by (auto dest: for_pairs_sound split: if_splits)

lemma sound_unify_step:
  assumes v: "sound_unify_var n" and l: "sound_unify_lists n"
  shows "sound_unify (Suc n)"
  unfolding sound_unify_def
proof (intro allI impI)
  fix x y s s'
  assume wf: "wf_subst s" and res: "unify (Suc n) x y (Some s) = Some (Some s')"
  show "ok s s' (nleaves s {x, y}) \<and> agree s' x y"
  proof (cases "x = y")
    case True
    with res wf show ?thesis by (auto simp: ok_refl agree_refl)
  next
    case ne: False
    show ?thesis
    proof (cases "is_variable x")
      case True
      with ne res have "unify_var n x y s = Some (Some s')" by simp
      with v wf True show ?thesis by (auto simp: sound_unify_var_def)
    next
      case nx: False
      show ?thesis
      proof (cases "is_variable y")
        case True
        with ne nx res have "unify_var n y x s = Some (Some s')" by simp
        with v wf True have "ok s s' (nleaves s {y, x}) \<and> agree s' y x"
          by (auto simp: sound_unify_var_def)
        then show ?thesis by (simp add: insert_commute agree_sym)
      next
        case ny: False
        from ne nx ny res obtain f xs ys where x: "x = Function f xs" and y: "y = Function f ys"
          and len: "length xs = length ys" and ul: "unify_lists n xs ys s = Some (Some s')"
          by (auto split: trm.splits if_splits)
        from l wf ul have r: "ok s s' (nleaves s (set xs \<union> set ys))" "list_all2 (agree s') xs ys"
          by (auto simp: sound_unify_lists_def)
        have "nleaves s {x, y} = nleaves s (set xs \<union> set ys)"
          by (simp add: x y nleaves_pair nleaves_Un nleaves_Function [OF wf])
        moreover from r(1) have "var_keys s'" by (simp add: ok_def wf_subst_def)
        then have "agree s' x y" unfolding x y using r(2) by (rule agree_Function)
        ultimately show ?thesis using r(1) by simp
      qed
    qed
  qed
qed

lemma sound_all: "sound_unify n \<and> sound_unify_var n \<and> sound_unify_lists n"
proof (induction n)
  case 0
  show ?case by (simp add: sound_unify_def sound_unify_var_def sound_unify_lists_def)
next
  case (Suc n)
  then show ?case
    by (simp add: sound_unify_var_step sound_unify_lists_step sound_unify_step)
qed

section \<open>Unification makes the terms identical\<close>

lemma unify_sound:
  "wf_subst s \<Longrightarrow> unify n x y (Some s) = Some (Some s')
     \<Longrightarrow> ok s s' (nleaves s {x, y}) \<and> agree s' x y"
  using sound_all [of n] by (simp add: sound_unify_def)

lemma unify_args_sound:
  assumes "wf_subst s" "unify_args n xs ys (Some s) = Some (Some s')"
  shows "ok s s' (nleaves s (set xs \<union> set ys)) \<and> list_all2 (agree s') xs ys"
proof (cases n)
  case 0
  with assms show ?thesis by simp
next
  case (Suc k)
  show ?thesis
  proof (cases "xs = ys")
    case True
    with assms Suc have "s' = s" by simp
    with assms(1) True show ?thesis by (simp add: ok_refl list_all2_same agree_refl)
  next
    case False
    with assms Suc have "unify_lists k xs ys s = Some (Some s')" by simp
    with sound_all [of k] assms(1) show ?thesis by (simp add: sound_unify_lists_def)
  qed
qed

lemma agree_substitute:
  assumes "agree s x y"
  shows "\<exists>m r. substitute m x s = Some r \<and> substitute m y s = Some r"
proof -
  from assms obtain r n1 n2 where "substitute n1 x s = Some r" "substitute n2 y s = Some r"
    by (auto simp: agree_def chases_iff)
  then have "substitute (max n1 n2) x s = Some r" "substitute (max n1 n2) y s = Some r"
    using substitute_mono [of n1 x s r "max n1 n2"] substitute_mono [of n2 y s r "max n1 n2"]
    by simp_all
  then show ?thesis by blast
qed

lemma agree_lists_substitute:
  assumes "list_all2 (agree s) xs ys"
  shows "\<exists>m rs. those (map (\<lambda>a. substitute m a s) xs) = Some rs
               \<and> those (map (\<lambda>a. substitute m a s) ys) = Some rs"
proof -
  from agree_lists [OF assms] obtain rs where rs: "list_all2 (chases s) xs rs"
    "list_all2 (chases s) ys rs" by blast
  have "\<exists>n. list_all2 (\<lambda>a r. substitute n a s = Some r) zs rs" if "list_all2 (chases s) zs rs" for zs
  proof (rule list_all2_common_fuel [where f = "\<lambda>n a. substitute n a s"])
    show "list_all2 (\<lambda>a r. \<exists>n. substitute n a s = Some r) zs rs"
      using that by (rule list_all2_mono) (simp add: chases_iff)
  qed (rule substitute_mono)
  with rs obtain n1 n2 where n: "list_all2 (\<lambda>a r. substitute n1 a s = Some r) xs rs"
    "list_all2 (\<lambda>a r. substitute n2 a s = Some r) ys rs" by blast
  have "list_all2 (\<lambda>a r. substitute (max n1 n2) a s = Some r) xs rs"
    using n(1) by (rule list_all2_mono) (rule substitute_mono, assumption, simp)
  moreover have "list_all2 (\<lambda>a r. substitute (max n1 n2) a s = Some r) ys rs"
    using n(2) by (rule list_all2_mono) (rule substitute_mono, assumption, simp)
  ultimately show ?thesis by (auto simp: those_map_Some)
qed

text \<open>
  C1: when \<open>unify(x, y, {})\<close> on two terms returns a substitution, \<open>substitute\<close>
  returns for both terms under it and gives the same term; when \<open>unify\<close> on two argument
  lists returns a substitution, the lists have the same length and \<open>substitute\<close> gives
  the same term for the two arguments at each position.
\<close>

theorem C1_unify_makes_identical:
  "(unify n x y (Some Map.empty) = Some (Some \<sigma>)
      \<longrightarrow> (\<exists>m r. substitute m x \<sigma> = Some r \<and> substitute m y \<sigma> = Some r))
   \<and> (unify_args n xs ys (Some Map.empty) = Some (Some \<sigma>)
      \<longrightarrow> length xs = length ys
        \<and> (\<exists>m rs. those (map (\<lambda>a. substitute m a \<sigma>) xs) = Some rs
                 \<and> those (map (\<lambda>a. substitute m a \<sigma>) ys) = Some rs))"
proof (intro conjI impI)
  assume "unify n x y (Some Map.empty) = Some (Some \<sigma>)"
  from unify_sound [OF wf_subst_empty this] have "agree \<sigma> x y" by simp
  then show "\<exists>m r. substitute m x \<sigma> = Some r \<and> substitute m y \<sigma> = Some r"
    by (rule agree_substitute)
next
  assume u: "unify_args n xs ys (Some Map.empty) = Some (Some \<sigma>)"
  from unify_args_sound [OF wf_subst_empty u] have a: "list_all2 (agree \<sigma>) xs ys" by simp
  then show "length xs = length ys" by (rule list_all2_lengthD)
  from a show "\<exists>m rs. those (map (\<lambda>a. substitute m a \<sigma>) xs) = Some rs
                 \<and> those (map (\<lambda>a. substitute m a \<sigma>) ys) = Some rs"
    by (rule agree_lists_substitute)
qed

theorem C1_unify_makes_identical_witness:
  "unify (Suc (Suc (Suc (Suc (Suc (Suc 0)))))) (Function ''f'' [Term ''x'', Term ''B''])
      (Function ''f'' [Term ''A'', Term ''y'']) (Some Map.empty)
     = Some (Some [Term ''x'' \<mapsto> Term ''A'', Term ''y'' \<mapsto> Term ''B''])
   \<and> (\<exists>m r. substitute m (Function ''f'' [Term ''x'', Term ''B''])
                [Term ''x'' \<mapsto> Term ''A'', Term ''y'' \<mapsto> Term ''B''] = Some r
           \<and> substitute m (Function ''f'' [Term ''A'', Term ''y''])
                [Term ''x'' \<mapsto> Term ''A'', Term ''y'' \<mapsto> Term ''B''] = Some r)"
proof -
  have u: "unify (Suc (Suc (Suc (Suc (Suc (Suc 0)))))) (Function ''f'' [Term ''x'', Term ''B''])
      (Function ''f'' [Term ''A'', Term ''y'']) (Some Map.empty)
     = Some (Some [Term ''x'' \<mapsto> Term ''A'', Term ''y'' \<mapsto> Term ''B''])"
    by (simp add: is_lower_def)
  have e: "\<exists>m r. substitute m (Function ''f'' [Term ''x'', Term ''B''])
                [Term ''x'' \<mapsto> Term ''A'', Term ''y'' \<mapsto> Term ''B''] = Some r
           \<and> substitute m (Function ''f'' [Term ''A'', Term ''y''])
                [Term ''x'' \<mapsto> Term ''A'', Term ''y'' \<mapsto> Term ''B''] = Some r"
    by (rule C1_unify_makes_identical [THEN conjunct1, rule_format, OF u])
  show ?thesis by (rule conjI [OF u e])
qed

text \<open>
  C4: under a substitution that \<open>unify(x, y, {})\<close> has returned, on terms or on argument
  lists, \<open>substitute\<close> returns for every term: some depth bound is enough.
\<close>

theorem C4_substitute_terminates:
  "unify n x y (Some Map.empty) = Some (Some \<sigma>)
     \<or> unify_args n xs ys (Some Map.empty) = Some (Some \<sigma>)
   \<Longrightarrow> \<exists>m r. substitute m t \<sigma> = Some r"
proof -
  assume "unify n x y (Some Map.empty) = Some (Some \<sigma>)
     \<or> unify_args n xs ys (Some Map.empty) = Some (Some \<sigma>)"
  then have "wf_subst \<sigma>"
    using unify_sound [OF wf_subst_empty] unify_args_sound [OF wf_subst_empty]
    by (auto simp: ok_def)
  then obtain r where "chases \<sigma> t r" by (auto simp: wf_subst_def)
  then show ?thesis by (auto simp: chases_iff)
qed

theorem C4_substitute_terminates_witness:
  "unify (Suc (Suc (Suc 0))) (Term ''x'') (Term ''y'') (Some Map.empty)
     = Some (Some [Term ''x'' \<mapsto> Term ''y''])
   \<and> (\<exists>m r. substitute m (Function ''g'' [Term ''x'', Term ''y'']) [Term ''x'' \<mapsto> Term ''y'']
              = Some r)"
proof -
  have u: "unify (Suc (Suc (Suc 0))) (Term ''x'') (Term ''y'') (Some Map.empty)
     = Some (Some [Term ''x'' \<mapsto> Term ''y''])"
    by (simp add: is_lower_def)
  have e: "\<exists>m r. substitute m (Function ''g'' [Term ''x'', Term ''y'']) [Term ''x'' \<mapsto> Term ''y'']
              = Some r"
    by (rule C4_substitute_terminates [OF disjI1, OF u])
  show ?thesis by (rule conjI [OF u e])
qed

section \<open>The unifier never changes a dictionary of the store\<close>

lemma frame_refl: "r < length h \<Longrightarrow> frame r h (Some r, h)"
  by (simp add: frame_def)

lemma frame_fail: "frame r h (None, h)"
  by (simp add: frame_def)

lemma frame_trans:
  assumes "frame r h (Some r1, h1)" "frame r1 h1 res" "r < length h"
  shows "frame r h res"
proof -
  obtain ro h2 where res: "res = (ro, h2)" by (cases res)
  from assms(1) obtain n1 where h1: "h1 = h @ n1" and r1: "r1 < length h1" "r1 = r \<or> length h \<le> r1"
    "h ! r \<subseteq>\<^sub>m h1 ! r1"
    by (auto simp: frame_def)
  from assms(2) obtain n2 where h2: "h2 = h1 @ n2" by (auto simp: frame_def res)
  have pre: "\<exists>new. h2 = h @ new" using h1 h2 by simp
  show ?thesis
  proof (cases ro)
    case None
    with pre show ?thesis by (simp add: frame_def res)
  next
    case (Some r2)
    with assms(2) have r2: "r2 < length h2" "r2 = r1 \<or> length h1 \<le> r2" "h1 ! r1 \<subseteq>\<^sub>m h2 ! r2"
      by (auto simp: frame_def res)
    have "h ! r \<subseteq>\<^sub>m h2 ! r2" using r1(3) r2(3) by (rule map_le_trans)
    moreover have "r2 = r \<or> length h \<le> r2" using r1(2) r2(2) h1 by auto
    ultimately show ?thesis using pre r2(1) Some by (simp add: frame_def res)
  qed
qed

lemma frame_bind:
  assumes "r < length h" "(h ! r) var = None"
  shows "frame r h (case dict_copy r h of (r', h') \<Rightarrow> (Some r', dict_setitem r' var x h'))"
  using assms
  by (auto simp: frame_def dict_copy_def dict_setitem_def map_le_def nth_append)

lemma value_bind:
  "r < length h \<Longrightarrow>
   (case dict_copy r h of (r', h') \<Rightarrow> dict_setitem r' var x h' ! r') = (h ! r)(var \<mapsto> x)"
  by (simp add: dict_copy_def dict_setitem_def nth_append)

lemma value_of_simps:
  "value_of None = None"
  "value_of (Some (None, h)) = Some None"
  "value_of (Some (Some r, h)) = Some (Some (h ! r))"
  by (simp_all add: value_of_def)

lemma frame_unify_var_step:
  assumes IH: "frame_unify n"
  shows "frame_unify_var (Suc n)"
  unfolding frame_unify_var_def
proof (intro allI impI)
  fix var x r and h :: store
  assume r: "r < length h"
  note IHr = IH [unfolded frame_unify_def, rule_format, OF r]
  show "unify_var (Suc n) var x (h ! r) = value_of (unify_var_st (Suc n) var x r h)
      \<and> (\<forall>res. unify_var_st (Suc n) var x r h = Some res \<longrightarrow> frame r h res)"
  proof (cases "(h ! r) var")
    case (Some b)
    with IHr [of b x] show ?thesis by simp
  next
    case None
    show ?thesis
    proof (cases "(h ! r) x")
      case (Some b)
      with None IHr [of var b] show ?thesis by simp
    next
      case xNone: None
      show ?thesis
      proof (cases "occurs_check n var x (h ! r)")
        case None
        with \<open>(h ! r) var = None\<close> xNone show ?thesis by (simp add: value_of_simps)
      next
        case (Some b)
        show ?thesis
        proof (cases b)
          case True
          with Some \<open>(h ! r) var = None\<close> xNone show ?thesis
            by (simp add: value_of_simps frame_fail)
        next
          case False
          obtain r' h' where c: "dict_copy r h = (r', h')" by (cases "dict_copy r h")
          from value_bind [OF r, of var x] frame_bind [OF r \<open>(h ! r) var = None\<close>, of x]
          have "dict_setitem r' var x h' ! r' = (h ! r)(var \<mapsto> x)"
            "frame r h (Some r', dict_setitem r' var x h')"
            by (simp_all add: c)
          with False Some \<open>(h ! r) var = None\<close> xNone show ?thesis
            by (simp add: value_of_simps c)
        qed
      qed
    qed
  qed
qed

lemma for_pairs_frame:
  assumes IH: "frame_unify n"
  shows "r < length h \<Longrightarrow>
    for_pairs (\<lambda>(x, y) s. unify n x y (Some s)) ps (h ! r)
      = value_of (for_pairs_st (\<lambda>(x, y) s. unify_st n x y (Some s)) ps r h)
    \<and> (\<forall>res. for_pairs_st (\<lambda>(x, y) s. unify_st n x y (Some s)) ps r h = Some res
          \<longrightarrow> frame r h res)"
proof (induction ps arbitrary: r h)
  case Nil
  then show ?case by (simp add: value_of_simps frame_refl)
next
  case (Cons p ps)
  obtain x y where p: "p = (x, y)" by (cases p)
  note IHr = IH [unfolded frame_unify_def, rule_format, OF Cons.prems, of x y]
  show ?case
  proof (cases "unify_st n x y (Some r) h")
    case None
    with IHr show ?thesis by (simp add: p value_of_simps)
  next
    case (Some res)
    obtain ro h1 where res: "res = (ro, h1)" by (cases res)
    from IHr Some have fr: "frame r h (ro, h1)" by (simp add: res)
    show ?thesis
    proof (cases ro)
      case None
      with IHr Some res fr show ?thesis by (simp add: p value_of_simps)
    next
      case (Some r1)
      with fr have r1: "r1 < length h1" by (simp add: frame_def)
      from IHr \<open>unify_st n x y (Some r) h = Some res\<close> res Some
      have u: "unify n x y (Some (h ! r)) = Some (Some (h1 ! r1))" by (simp add: value_of_simps)
      from Cons.IH [OF r1] fr Some Cons.prems
      have "for_pairs (\<lambda>(x, y) s. unify n x y (Some s)) ps (h1 ! r1)
              = value_of (for_pairs_st (\<lambda>(x, y) s. unify_st n x y (Some s)) ps r1 h1)"
        and "\<forall>res. for_pairs_st (\<lambda>(x, y) s. unify_st n x y (Some s)) ps r1 h1 = Some res
              \<longrightarrow> frame r h res"
        by (auto intro: frame_trans)
      with u \<open>unify_st n x y (Some r) h = Some res\<close> res Some show ?thesis by (simp add: p)
    qed
  qed
qed

lemma frame_unify_lists_step:
  assumes IH: "frame_unify n"
  shows "frame_unify_lists (Suc n)"
  unfolding frame_unify_lists_def
proof (intro allI impI)
  fix xs ys r and h :: store
  assume r: "r < length h"
  from for_pairs_frame [OF IH r, of "zip xs ys"]
  show "unify_lists (Suc n) xs ys (h ! r) = value_of (unify_lists_st (Suc n) xs ys r h)
      \<and> (\<forall>res. unify_lists_st (Suc n) xs ys r h = Some res \<longrightarrow> frame r h res)"
    by (simp add: value_of_simps frame_fail)
qed

lemma frame_unify_step:
  assumes v: "frame_unify_var n" and l: "frame_unify_lists n"
  shows "frame_unify (Suc n)"
  unfolding frame_unify_def
proof (intro allI impI)
  fix x y r and h :: store
  assume r: "r < length h"
  note vr = v [unfolded frame_unify_var_def, rule_format, OF r]
  note lr = l [unfolded frame_unify_lists_def, rule_format, OF r]
  show "unify (Suc n) x y (Some (h ! r)) = value_of (unify_st (Suc n) x y (Some r) h)
      \<and> (\<forall>res. unify_st (Suc n) x y (Some r) h = Some res \<longrightarrow> frame r h res)"
  proof (cases "x = y")
    case True
    with r show ?thesis by (simp add: value_of_simps frame_refl)
  next
    case ne: False
    show ?thesis
    proof (cases "is_variable x")
      case True
      with ne vr [of x y] show ?thesis by simp
    next
      case nx: False
      show ?thesis
      proof (cases "is_variable y")
        case True
        with ne nx vr [of y x] show ?thesis by simp
      next
        case ny: False
        show ?thesis
        proof (cases x)
          case (Term nm)
          with ne nx ny show ?thesis by (simp add: value_of_simps frame_fail)
        next
          case fx: (Function f xs)
          show ?thesis
          proof (cases y)
            case (Term nm)
            with fx ne nx ny show ?thesis by (simp add: value_of_simps frame_fail)
          next
            case (Function g ys)
            with fx ne nx ny lr [of xs ys] show ?thesis
              by (auto simp: value_of_simps frame_fail)
          qed
        qed
      qed
    qed
  qed
qed

lemma frame_all: "frame_unify n \<and> frame_unify_var n \<and> frame_unify_lists n"
proof (induction n)
  case 0
  show ?case
    by (simp add: frame_unify_def frame_unify_var_def frame_unify_lists_def value_of_simps)
next
  case (Suc n)
  then show ?case
    by (simp add: frame_unify_var_step frame_unify_lists_step frame_unify_step)
qed

text \<open>
  C6: a call of \<open>unify\<close> (on terms or on argument lists) that returns leaves every
  dictionary of the store as it was, the caller's among them, whether it fails or not;
  a returned reference is the caller's own or a new one, and the dictionary there extends
  the caller's; and the call returns what \<open>unify\<close> on the value of the caller's dictionary
  returns.
\<close>

theorem C6_unify_leaves_substitution:
  assumes "s < length h"
  shows "(unify_st n x y (Some s) h = Some (res, h') \<or> unify_args_st n xs ys (Some s) h = Some (res, h')
          \<longrightarrow> (\<forall>r < length h. h' ! r = h ! r) \<and> h' ! s = h ! s
              \<and> (\<forall>s'. res = Some s' \<longrightarrow> (s' = s \<or> length h \<le> s') \<and> h ! s \<subseteq>\<^sub>m h' ! s'))
         \<and> unify n x y (Some (h ! s)) = value_of (unify_st n x y (Some s) h)
         \<and> unify_args n xs ys (Some (h ! s)) = value_of (unify_args_st n xs ys (Some s) h)"
proof -
  note u = frame_all [of n, THEN conjunct1, unfolded frame_unify_def, rule_format, OF assms]
  have a: "unify_args n xs ys (Some (h ! s)) = value_of (unify_args_st n xs ys (Some s) h)
      \<and> (\<forall>res. unify_args_st n xs ys (Some s) h = Some res \<longrightarrow> frame s h res)"
  proof (cases n)
    case 0
    then show ?thesis by (simp add: value_of_simps)
  next
    case (Suc k)
    note l = frame_all [of k, THEN conjunct2, THEN conjunct2, unfolded frame_unify_lists_def,
        rule_format, OF assms, of xs ys]
    with assms show ?thesis by (simp add: Suc value_of_simps frame_refl)
  qed
  have f: "(\<forall>r < length h. h' ! r = h ! r) \<and> h' ! s = h ! s
      \<and> (\<forall>s'. res = Some s' \<longrightarrow> (s' = s \<or> length h \<le> s') \<and> h ! s \<subseteq>\<^sub>m h' ! s')"
    if "frame s h (res, h')"
    using that assms by (auto simp: frame_def nth_append)
  from u [of x y] a f show ?thesis by blast
qed

theorem C6_unify_leaves_substitution_witness:
  "(0::nat) < length [Map.empty :: subst]
   \<and> unify_st (Suc (Suc (Suc 0))) (Term ''x'') (Term ''A'') (Some 0) [Map.empty]
       = Some (Some (Suc 0), [Map.empty, [Term ''x'' \<mapsto> Term ''A'']])
   \<and> [Map.empty, [Term ''x'' \<mapsto> Term ''A'']] ! 0 = ([Map.empty] ! 0 :: subst)
   \<and> unify_st (Suc (Suc (Suc (Suc 0)))) (Term ''x'') (Function ''f'' [Term ''x'']) (Some 0) [Map.empty]
       = Some (None, [Map.empty])"
proof -
  have l: "(0::nat) < length [Map.empty :: subst]" by simp
  have u: "unify_st (Suc (Suc (Suc 0))) (Term ''x'') (Term ''A'') (Some 0) [Map.empty]
       = Some (Some (Suc 0), [Map.empty, [Term ''x'' \<mapsto> Term ''A'']])"
    by (simp add: is_lower_def dict_copy_def dict_setitem_def)
  have v: "unify_st (Suc (Suc (Suc (Suc 0)))) (Term ''x'') (Function ''f'' [Term ''x'']) (Some 0)
       [Map.empty] = Some (None, [Map.empty])"
    by (simp add: is_lower_def)
  have e: "[Map.empty, [Term ''x'' \<mapsto> Term ''A'']] ! 0 = ([Map.empty] ! 0 :: subst)"
    by (rule C6_unify_leaves_substitution [OF l, THEN conjunct1, THEN mp, OF disjI1, OF u,
          THEN conjunct2, THEN conjunct1])
  from l u e v show ?thesis by (intro conjI)
qed

section \<open>The saturation loop never changes the knowledge base\<close>

lemma saturate_st_frame:
  "c < length h \<Longrightarrow>
   saturate lo co d r (h ! c) derived = map_option fst (saturate_st lo co d r c derived h)
   \<and> (\<forall>res h'. saturate_st lo co d r c derived h = Some (res, h')
         \<longrightarrow> length h' = length h \<and> (\<forall>a. a \<noteq> c \<longrightarrow> h' ! a = h ! a))"
proof (induction r arbitrary: derived h)
  case 0
  show ?case by simp
next
  case (Suc r)
  show ?case
  proof (cases "for_clause_pairs lo d (pairs (h ! c)) ([], derived)")
    case None
    then show ?thesis by simp
  next
    case (Some out)
    show ?thesis
    proof (cases out)
      case (Inl res)
      with Some show ?thesis by simp
    next
      case (Inr st)
      obtain new derived' where st: "st = (new, derived')" by (cases st)
      show ?thesis
      proof (cases "new = []")
        case True
        with Some Inr st show ?thesis by simp
      next
        case False
        let ?h = "list_extend c (co new) h"
        have c': "c < length ?h" and v: "?h ! c = h ! c @ co new"
          and o: "\<And>a. a \<noteq> c \<Longrightarrow> ?h ! a = h ! a" and len: "length ?h = length h"
          using Suc.prems by (simp_all add: list_extend_def)
        from Suc.IH [OF c', of derived'] Some Inr st False show ?thesis
          by (simp add: v o len)
      qed
    qed
  qed
qed

text \<open>
  C9: a call of \<open>resolution\<close> that returns leaves every list of the store as it was, the
  caller's knowledge base among them (the clauses it had, in their order): the list it
  extends is the copy it has made. It returns the verdict of \<open>resolution\<close> on the value
  of the knowledge base.
\<close>

theorem C9_resolution_leaves_kb:
  assumes "kb < length h"
  shows "(resolution_st lo co d r kb h = Some (verdict, h')
           \<longrightarrow> h' ! kb = h ! kb \<and> (\<forall>a < length h. h' ! a = h ! a))
         \<and> resolution lo co d r (h ! kb) = map_option fst (resolution_st lo co d r kb h)"
proof -
  let ?h1 = "h @ [h ! kb]"
  let ?run = "saturate_st lo co d r (length h) (set_of_list (h ! kb)) ?h1"
  have c: "length h < length ?h1" by simp
  have v: "?h1 ! length h = h ! kb" by simp
  from saturate_st_frame [OF c, of lo co d r "set_of_list (h ! kb)"]
  have f1: "saturate lo co d r (h ! kb) (set_of_list (h ! kb)) = map_option fst ?run"
    and f2: "\<forall>res h'. ?run = Some (res, h')
         \<longrightarrow> length h' = length ?h1 \<and> (\<forall>a. a \<noteq> length h \<longrightarrow> h' ! a = ?h1 ! a)"
    unfolding v by (rule conjunct1, rule conjunct2)
  have rs: "resolution_st lo co d r kb h = map_option (\<lambda>(res, h'). (fst res, h')) ?run"
    by (simp add: resolution_st_def list_copy_def)
  have old: "h' ! a = h ! a" if run: "resolution_st lo co d r kb h = Some (verdict, h')"
    and a: "a < length h" for a
  proof -
    from run obtain res where res: "?run = Some (res, h')"
      unfolding rs by (cases ?run) auto
    from a have "a \<noteq> length h" by simp
    with f2 res have "h' ! a = ?h1 ! a" by blast
    with a show ?thesis by (simp add: nth_append)
  qed
  have "resolution lo co d r (h ! kb) = map_option fst (resolution_st lo co d r kb h)"
    unfolding resolution_def resolution_run_def f1 rs
    by (cases ?run) auto
  with old assms show ?thesis by blast
qed

theorem C9_resolution_leaves_kb_witness:
  "(0::nat) < length [kb_saturated]
   \<and> resolution_st remdups id 0 (Suc 0) 0 [kb_saturated] = Some (''yes'', [kb_saturated, kb_saturated])
   \<and> [kb_saturated, kb_saturated] ! 0 = [kb_saturated] ! 0"
proof -
  have l: "(0::nat) < length [kb_saturated]" by simp
  have p: "pairs kb_saturated
      = [(Clause [Predicate ''P'' [Term ''A''] False], Clause [Predicate ''Q'' [Term ''B''] False])]"
    by (simp add: kb_saturated_def pairs_two)
  have fp: "for_clause_pairs remdups 0 (pairs kb_saturated) ([], set_of_list kb_saturated)
      = Some (Inr ([], set_of_list kb_saturated))"
    unfolding p by (simp add: resolve_kb_saturated)
  have s: "saturate_st remdups id 0 (Suc 0) (Suc 0) (set_of_list kb_saturated)
        [kb_saturated, kb_saturated]
      = Some ((''yes'', set_of_list kb_saturated), [kb_saturated, kb_saturated])"
    by (simp add: fp)
  have u: "resolution_st remdups id 0 (Suc 0) 0 [kb_saturated]
      = Some (''yes'', [kb_saturated, kb_saturated])"
    by (simp add: resolution_st_def list_copy_def s del: saturate_st.simps)
  have e: "[kb_saturated, kb_saturated] ! 0 = [kb_saturated] ! 0"
    by (rule C9_resolution_leaves_kb [OF l, THEN conjunct1, THEN mp, OF u, THEN conjunct1])
  from l u e show ?thesis by (intro conjI)
qed

section \<open>A larger depth bound does not change the result\<close>

lemma py_any_mono:
  assumes "py_any f as = Some b" and "\<And>a c. a \<in> set as \<Longrightarrow> f a = Some c \<Longrightarrow> g a = Some c"
  shows "py_any g as = Some b"
  using assms
proof (induction as)
  case Nil
  then show ?case by simp
next
  case (Cons a as)
  from Cons.prems(1) obtain c where c: "f a = Some c" by (auto split: option.splits)
  with Cons.prems(2) have g: "g a = Some c" by simp
  show ?case
  proof (cases c)
    case True
    with c g Cons.prems(1) show ?thesis by simp
  next
    case False
    with c Cons.prems(1) have "py_any f as = Some b" by simp
    with Cons.IH Cons.prems(2) have "py_any g as = Some b" by simp
    with False g show ?thesis by simp
  qed
qed

lemma occurs_check_mono:
  "occurs_check n var x s = Some b \<Longrightarrow> n \<le> m \<Longrightarrow> occurs_check m var x s = Some b"
proof (induction n arbitrary: x b m)
  case 0
  then show ?case by simp
next
  case (Suc n)
  from Suc.prems(2) obtain k where m: "m = Suc k" and nk: "n \<le> k" by (cases m) auto
  show ?case
  proof (cases "var = x")
    case True
    with Suc.prems(1) show ?thesis by (simp add: m)
  next
    case ne: False
    show ?thesis
    proof (cases x)
      case (Term nm)
      show ?thesis
      proof (cases "s x")
        case None
        with Term ne Suc.prems(1) show ?thesis by (simp add: m)
      next
        case (Some t)
        with Term ne Suc.prems(1) have "occurs_check n var t s = Some b" by simp
        from Suc.IH [OF this nk] Term ne Some show ?thesis by (simp add: m)
      qed
    next
      case (Function f as)
      with ne Suc.prems(1) have "py_any (\<lambda>arg. occurs_check n var arg s) as = Some b" by simp
      then have "py_any (\<lambda>arg. occurs_check k var arg s) as = Some b"
        by (rule py_any_mono) (rule Suc.IH [OF _ nk])
      with Function ne show ?thesis by (simp add: m)
    qed
  qed
qed

lemma for_pairs_mono:
  assumes "for_pairs f ps s = Some r"
    and "\<And>p a c. p \<in> set ps \<Longrightarrow> f p a = Some c \<Longrightarrow> g p a = Some c"
  shows "for_pairs g ps s = Some r"
  using assms
proof (induction ps arbitrary: s)
  case Nil
  then show ?case by simp
next
  case (Cons p ps)
  from Cons.prems(1) obtain c where c: "f p s = Some c" by (auto split: option.splits)
  with Cons.prems(2) have g: "g p s = Some c" by simp
  show ?case
  proof (cases c)
    case None
    with c g Cons.prems(1) show ?thesis by simp
  next
    case (Some s1)
    with c Cons.prems(1) have "for_pairs f ps s1 = Some r" by simp
    with Cons.IH Cons.prems(2) have "for_pairs g ps s1 = Some r" by simp
    with Some g show ?thesis by simp
  qed
qed

lemma mono_unify_var_step:
  assumes IH: "mono_unify n"
  shows "mono_unify_var (Suc n)"
  unfolding mono_unify_var_def
proof (intro allI impI)
  fix m var x s r
  assume le: "Suc n \<le> m" and res: "unify_var (Suc n) var x s = Some r"
  from le obtain k where m: "m = Suc k" and nk: "n \<le> k" by (cases m) auto
  note IHk = IH [unfolded mono_unify_def, rule_format, OF nk]
  show "unify_var m var x s = Some r"
  proof (cases "s var")
    case (Some b)
    with res IHk [of b x "Some s" r] show ?thesis by (simp add: m)
  next
    case None
    show ?thesis
    proof (cases "s x")
      case (Some b)
      with None res IHk [of var b "Some s" r] show ?thesis by (simp add: m)
    next
      case xNone: None
      with None res obtain b where b: "occurs_check n var x s = Some b"
        by (auto split: option.splits)
      from occurs_check_mono [OF b nk] b None xNone res show ?thesis by (simp add: m)
    qed
  qed
qed

lemma mono_unify_lists_step:
  assumes IH: "mono_unify n"
  shows "mono_unify_lists (Suc n)"
  unfolding mono_unify_lists_def
proof (intro allI impI)
  fix m xs ys s r
  assume le: "Suc n \<le> m" and res: "unify_lists (Suc n) xs ys s = Some r"
  from le obtain k where m: "m = Suc k" and nk: "n \<le> k" by (cases m) auto
  note IHk = IH [unfolded mono_unify_def, rule_format, OF nk]
  show "unify_lists m xs ys s = Some r"
  proof (cases "length xs = length ys")
    case False
    with res show ?thesis by (simp add: m)
  next
    case True
    with res have "for_pairs (\<lambda>(x, y) s. unify n x y (Some s)) (zip xs ys) s = Some r" by simp
    then have "for_pairs (\<lambda>(x, y) s. unify k x y (Some s)) (zip xs ys) s = Some r"
      by (rule for_pairs_mono) (auto intro: IHk)
    with True show ?thesis by (simp add: m)
  qed
qed

lemma mono_unify_step:
  assumes v: "mono_unify_var n" and l: "mono_unify_lists n"
  shows "mono_unify (Suc n)"
  unfolding mono_unify_def
proof (intro allI impI)
  fix m x y so r
  assume le: "Suc n \<le> m" and res: "unify (Suc n) x y so = Some r"
  from le obtain k where m: "m = Suc k" and nk: "n \<le> k" by (cases m) auto
  note vk = v [unfolded mono_unify_var_def, rule_format, OF nk]
  note lk = l [unfolded mono_unify_lists_def, rule_format, OF nk]
  show "unify m x y so = Some r"
  proof (cases so)
    case None
    with res show ?thesis by (simp add: m)
  next
    case (Some s)
    show ?thesis
    proof (cases "x = y")
      case True
      with Some res show ?thesis by (auto simp: m)
    next
      case ne: False
      show ?thesis
      proof (cases "is_variable x")
        case True
        with ne Some res vk [of x y s r] show ?thesis by (simp add: m)
      next
        case nx: False
        show ?thesis
        proof (cases "is_variable y")
          case True
          with ne nx Some res vk [of y x s r] show ?thesis by (simp add: m)
        next
          case ny: False
          show ?thesis
          proof (cases x)
            case (Term nm)
            with ne nx ny Some res show ?thesis by (simp add: m)
          next
            case fx: (Function f xs)
            show ?thesis
            proof (cases y)
              case (Term nm)
              with fx ne nx ny Some res show ?thesis by (simp add: m)
            next
              case (Function g ys)
              with fx ne nx ny Some res lk [of xs ys s r] show ?thesis
                by (auto simp: m split: if_splits)
            qed
          qed
        qed
      qed
    qed
  qed
qed

lemma mono_all: "mono_unify n \<and> mono_unify_var n \<and> mono_unify_lists n"
proof (induction n)
  case 0
  show ?case by (simp add: mono_unify_def mono_unify_var_def mono_unify_lists_def)
next
  case (Suc n)
  then show ?case by (simp add: mono_unify_var_step mono_unify_lists_step mono_unify_step)
qed

lemma unify_mono: "unify n x y so = Some r \<Longrightarrow> n \<le> m \<Longrightarrow> unify m x y so = Some r"
  using mono_all [of n] unfolding mono_unify_def by blast

lemma unify_args_mono:
  assumes "unify_args n xs ys so = Some r" "n \<le> m"
  shows "unify_args m xs ys so = Some r"
proof -
  from assms obtain k where n: "n = Suc k" by (cases n) auto
  with assms(2) obtain j where m: "m = Suc j" and kj: "k \<le> j" by (cases m) auto
  from mono_all [of k] have l: "\<And>xs ys s r. unify_lists k xs ys s = Some r
      \<Longrightarrow> unify_lists j xs ys s = Some r"
    using kj unfolding mono_unify_lists_def by blast
  from assms(1) show ?thesis
    by (cases so) (auto simp: n m l split: if_splits)
qed

section \<open>The occurs-check returns\<close>

lemma py_any_total:
  "(\<And>a. a \<in> set as \<Longrightarrow> \<exists>b. f a = Some b) \<Longrightarrow> \<exists>b. py_any f as = Some b"
proof (induction as)
  case Nil
  have "py_any f [] = Some False" by simp
  then show ?case ..
next
  case (Cons a as)
  from Cons.prems [of a] obtain b where b: "f a = Some b" by auto
  have "\<exists>b. py_any f as = Some b"
  proof (rule Cons.IH)
    fix c assume "c \<in> set as"
    then show "\<exists>b. f c = Some b" using Cons.prems [of c] by simp
  qed
  then obtain c where "py_any f as = Some c" ..
  with b show ?case by (cases b) auto
qed

lemma common_fuel_set:
  fixes f :: "nat \<Rightarrow> 'a \<Rightarrow> 'b option"
  assumes mono: "\<And>n m a r. f n a = Some r \<Longrightarrow> n \<le> m \<Longrightarrow> f m a = Some r"
  shows "(\<And>a. a \<in> set as \<Longrightarrow> \<exists>n r. f n a = Some r)
    \<Longrightarrow> \<exists>n. \<forall>a \<in> set as. \<exists>r. f n a = Some r"
proof (induction as)
  case Nil
  show ?case by simp
next
  case (Cons a as)
  from Cons.prems [of a] obtain n1 r1 where n1: "f n1 a = Some r1" by auto
  have "\<exists>n. \<forall>a \<in> set as. \<exists>r. f n a = Some r"
  proof (rule Cons.IH)
    fix c assume "c \<in> set as"
    then show "\<exists>n r. f n c = Some r" using Cons.prems [of c] by simp
  qed
  then obtain n2 where n2: "\<forall>a \<in> set as. \<exists>r. f n2 a = Some r" ..
  have "f (max n1 n2) a = Some r1" using n1 by (rule mono) simp
  moreover have "\<exists>r. f (max n1 n2) b = Some r" if "b \<in> set as" for b
  proof -
    from n2 that obtain r where "f n2 b = Some r" by blast
    then have "f (max n1 n2) b = Some r" by (rule mono) simp
    then show ?thesis ..
  qed
  ultimately have "\<forall>b \<in> set (a # as). \<exists>r. f (max n1 n2) b = Some r" by auto
  then show ?case ..
qed

lemma occurs_check_terminates_chases:
  "chases s x r \<Longrightarrow> var_keys s \<Longrightarrow> \<exists>n b. occurs_check n var x s = Some b"
proof (induction rule: chases.induct)
  case (chases_bound t b r)
  from chases_bound.prems chases_bound.hyps(1) obtain nm where t: "t = Term nm"
    by (cases t) (auto simp: var_keys_Function)
  from chases_bound.IH [OF chases_bound.prems] obtain n c where "occurs_check n var b s = Some c"
    by blast
  with chases_bound.hyps(1) have "\<exists>c. occurs_check (Suc n) var t s = Some c" by (auto simp: t)
  then show ?case by blast
next
  case (chases_term nm)
  then have "\<exists>c. occurs_check (Suc 0) var (Term nm) s = Some c" by auto
  then show ?case by blast
next
  case (chases_function f as rs)
  have "\<exists>n b. occurs_check n var a s = Some b" if "a \<in> set as" for a
  proof -
    from list_all2_set1 [OF chases_function.IH that] obtain q
      where "var_keys s \<longrightarrow> (\<exists>n b. occurs_check n var a s = Some b)" by blast
    with chases_function.prems show ?thesis by simp
  qed
  note each = this
  have "\<exists>n. \<forall>a \<in> set as. \<exists>b. occurs_check n var a s = Some b"
  proof (rule common_fuel_set [where f = "\<lambda>n a. occurs_check n var a s"])
    show "occurs_check n var a s = Some r \<Longrightarrow> n \<le> m \<Longrightarrow> occurs_check m var a s = Some r"
      for n m a r by (rule occurs_check_mono)
    show "\<exists>n r. occurs_check n var a s = Some r" if "a \<in> set as" for a
      using that by (rule each)
  qed
  then obtain n where "\<forall>a \<in> set as. \<exists>b. occurs_check n var a s = Some b" ..
  then have "\<exists>b. py_any (\<lambda>a. occurs_check n var a s) as = Some b"
    by (intro py_any_total) simp
  then have "\<exists>b. occurs_check (Suc n) var (Function f as) s = Some b" by auto
  then show ?case by blast
qed

lemma occurs_check_terminates:
  assumes "wf_subst s"
  shows "\<exists>n b. occurs_check n var x s = Some b"
proof -
  from assms obtain r where r: "chases s x r" by (auto simp: wf_subst_def)
  from assms have "var_keys s" by (simp add: wf_subst_def)
  with r show ?thesis by (rule occurs_check_terminates_chases)
qed

lemma py_any_Some_True: "py_any f as = Some True \<Longrightarrow> \<exists>a \<in> set as. f a = Some True"
  by (induction as) (auto split: option.splits bool.splits)

lemma occurs_check_True_leaves:
  "chases s x r \<Longrightarrow> var_keys s \<Longrightarrow> is_variable var \<Longrightarrow> s var = None
     \<Longrightarrow> occurs_check n var x s = Some True \<Longrightarrow> var \<in> leaves r"
proof (induction arbitrary: n rule: chases.induct)
  case (chases_bound t b r)
  from chases_bound.prems(4) obtain k where n: "n = Suc k" by (cases n) auto
  from chases_bound.prems(1) chases_bound.hyps(1) obtain nm where t: "t = Term nm"
    by (cases t) (auto simp: var_keys_Function)
  from chases_bound.hyps(1) chases_bound.prems(3) have "var \<noteq> t" by auto
  with chases_bound.prems(4) chases_bound.hyps(1) have "occurs_check k var b s = Some True"
    by (simp add: n t)
  with chases_bound show ?case by blast
next
  case (chases_term nm)
  then show ?case by (cases n) (auto split: if_splits)
next
  case (chases_function f as rs)
  from chases_function.prems(4) obtain k where n: "n = Suc k" by (cases n) auto
  from chases_function.prems(2) have "var \<noteq> Function f as" by auto
  with chases_function.prems(4) have "py_any (\<lambda>a. occurs_check k var a s) as = Some True"
    by (simp add: n)
  from py_any_Some_True [OF this] obtain a where a: "a \<in> set as"
    "occurs_check k var a s = Some True" by auto
  from list_all2_set1 [OF chases_function.IH a(1)]
  have "\<exists>q \<in> set rs. var \<in> leaves q"
    using chases_function.prems(1-3) a(2) by auto
  then show ?case by simp
qed

lemma height_substitute:
  assumes "wf_subst s"
  shows "substitute (height s t) t s \<noteq> None"
proof -
  from assms obtain r where "chases s t r" by (auto simp: wf_subst_def)
  then obtain n where "substitute n t s = Some r" by (auto simp: chases_iff)
  then have "substitute n t s \<noteq> None" by simp
  then show ?thesis unfolding height_def by (rule LeastI)
qed

lemma height_le: "substitute n t s \<noteq> None \<Longrightarrow> height s t \<le> n"
  unfolding height_def by (rule Least_le)

lemma height_bound:
  assumes "wf_subst s" "s t = Some b"
  shows "height s b < height s t"
proof -
  from height_substitute [OF assms(1), of t] obtain k where k: "height s t = Suc k"
    by (cases "height s t") auto
  with height_substitute [OF assms(1), of t] assms(2) have "substitute k b s \<noteq> None" by simp
  then have "height s b \<le> k" by (rule height_le)
  with k show ?thesis by simp
qed

lemma height_arg:
  assumes "wf_subst s" "a \<in> set as"
  shows "height s a < height s (Function f as)"
proof -
  from assms(1) have vk: "s (Function f as) = None" by (simp add: wf_subst_def var_keys_Function)
  from height_substitute [OF assms(1), of "Function f as"] obtain k
    where k: "height s (Function f as) = Suc k"
    by (cases "height s (Function f as)") auto
  with height_substitute [OF assms(1), of "Function f as"] vk
  obtain rs where "those (map (\<lambda>arg. substitute k arg s) as) = Some rs" by auto
  then have "list_all2 (\<lambda>a r. substitute k a s = Some r) as rs" by (simp add: those_map_Some)
  from list_all2_set1 [OF this assms(2)] have "substitute k a s \<noteq> None" by auto
  then have "height s a \<le> k" by (rule height_le)
  with k show ?thesis by simp
qed

lemma finite_leaves: "finite (leaves t)"
  by (induction t) auto

lemma nleaves_single: "chases s t r \<Longrightarrow> nleaves s {t} = leaves r"
  by (auto simp: nleaves_def dest: chases_unique)

lemma finite_nleaves:
  assumes "wf_subst s" "finite T"
  shows "finite (nleaves s T)"
proof -
  have "nleaves s T = (\<Union>t \<in> T. nleaves s {t})" by (auto simp: nleaves_def)
  moreover have "finite (nleaves s {t})" for t
  proof -
    from assms(1) obtain r where "chases s t r" by (auto simp: wf_subst_def)
    then show ?thesis by (simp add: nleaves_single finite_leaves)
  qed
  ultimately show ?thesis using assms(2) by simp
qed

lemma nleaves_unbound: "l \<in> nleaves s T \<Longrightarrow> s l = None"
  by (auto simp: nleaves_def dest: chases_leaves_unbound)

section \<open>The unifier returns\<close>

lemma unify_var_bound1:
  "s var = Some b \<Longrightarrow> unify n b x (Some s) = Some r
     \<Longrightarrow> x \<noteq> var \<Longrightarrow> is_variable var \<Longrightarrow> unify (Suc (Suc n)) var x (Some s) = Some r"
  by simp

lemma unify_var_bound2:
  "s var = None \<Longrightarrow> s x = Some b \<Longrightarrow> unify n var b (Some s) = Some r
     \<Longrightarrow> x \<noteq> var \<Longrightarrow> is_variable var \<Longrightarrow> unify (Suc (Suc n)) var x (Some s) = Some r"
  by simp

lemma unify_var_unbound:
  "s var = None \<Longrightarrow> s x = None \<Longrightarrow> occurs_check n var x s = Some b
     \<Longrightarrow> unify_var (Suc n) var x s
         = Some (if b then None else Some (s(var \<mapsto> x)))"
  by simp

lemma for_pairs_terminates:
  assumes wf: "wf_subst s" and fin: "finite W" and c: "card W = c"
    and smaller: "\<And>a b s1. wf_subst s1 \<Longrightarrow>
        card (nleaves s1 {a, b}) < c \<or> (s1 = s \<and> (a, b) \<in> set ps0)
        \<Longrightarrow> \<exists>n r. unify n a b (Some s1) = Some r"
    and W: "\<And>a b. (a, b) \<in> set ps0 \<Longrightarrow> nleaves s {a, b} \<subseteq> W"
  shows "set ps \<subseteq> set ps0 \<Longrightarrow> ok s s1 W
    \<Longrightarrow> \<exists>n r. for_pairs (\<lambda>(a, b) s. unify n a b (Some s)) ps s1 = Some r"
proof (induction ps arbitrary: s1)
  case Nil
  show ?case by simp
next
  case (Cons p ps)
  obtain a b where p: "p = (a, b)" by (cases p)
  from Cons.prems(1) have ab: "(a, b) \<in> set ps0" and sub: "set ps \<subseteq> set ps0" by (auto simp: p)
  from Cons.prems(2) have wf1: "wf_subst s1" and lw: "leaves_within s s1 W"
    and ch: "s1 = s \<or> (\<exists>v \<in> W. s1 v \<noteq> None)"
    by (simp_all add: ok_def)
  have inW: "nleaves s1 {a, b} \<subseteq> W"
    using nleaves_grow [OF wf lw, of "{a, b}"] W [OF ab] by blast
  have "card (nleaves s1 {a, b}) < c \<or> (s1 = s \<and> (a, b) \<in> set ps0)"
  proof (cases "s1 = s")
    case True
    with ab show ?thesis by simp
  next
    case False
    with ch obtain v where v: "v \<in> W" "s1 v \<noteq> None" by blast
    from v(2) have "v \<notin> nleaves s1 {a, b}" by (auto dest: nleaves_unbound)
    with v(1) inW have "nleaves s1 {a, b} \<subset> W" by blast
    with fin c show ?thesis by (auto intro: psubset_card_mono)
  qed
  from smaller [OF wf1 this] obtain n1 r1 where u: "unify n1 a b (Some s1) = Some r1" by blast
  show ?case
  proof (cases r1)
    case None
    with u have "for_pairs (\<lambda>(a, b) s. unify n1 a b (Some s)) (p # ps) s1 = Some None"
      by (simp add: p)
    then show ?thesis by blast
  next
    case (Some s2)
    from unify_sound [OF wf1 u [unfolded Some]] have ok12: "ok s1 s2 (nleaves s1 {a, b})" by simp
    have "ok s s2 W" by (rule ok_trans [OF Cons.prems(2) ok12 subset_refl inW])
    from Cons.IH [OF sub this] obtain n2 r
      where fp: "for_pairs (\<lambda>(a, b) s. unify n2 a b (Some s)) ps s2 = Some r" by blast
    let ?N = "max n1 n2"
    have u': "unify ?N a b (Some s1) = Some (Some s2)"
      using u [unfolded Some] by (rule unify_mono) simp
    have "for_pairs (\<lambda>(a, b) s. unify ?N a b (Some s)) ps s2 = Some r"
      using fp
    proof (rule for_pairs_mono)
      fix q t c
      assume "(case q of (a, b) \<Rightarrow> \<lambda>s. unify n2 a b (Some s)) t = Some c"
      then show "(case q of (a, b) \<Rightarrow> \<lambda>s. unify ?N a b (Some s)) t = Some c"
        by (cases q) (auto intro: unify_mono [where n = n2])
    qed
    with u' have "for_pairs (\<lambda>(a, b) s. unify ?N a b (Some s)) (p # ps) s1 = Some r"
      by (simp add: p)
    then show ?thesis by blast
  qed
qed

lemma unify_terminates_aux:
  "wf_subst s \<Longrightarrow> card (nleaves s {x, y}) = c \<Longrightarrow> height s x + height s y = h
     \<Longrightarrow> \<exists>n r. unify n x y (Some s) = Some r"
proof (induction c arbitrary: x y s h rule: less_induct)
  case (less c)
  note outer = less.IH
  note wf = less.prems(1)
  from wf have vk: "var_keys s" by (simp add: wf_subst_def)
  have "card (nleaves s {x, y}) = c \<Longrightarrow> height s x + height s y = h
      \<Longrightarrow> \<exists>n r. unify n x y (Some s) = Some r" for x y h
  proof (induction h arbitrary: x y rule: less_induct)
    case (less h)
    note inner = less.IH
    note card = less.prems(1) and hs = less.prems(2)
    have fin: "finite (nleaves s {x, y})" by (rule finite_nleaves [OF wf]) simp
    have same: "\<exists>n r. unify n a b (Some s) = Some r"
      if sub: "nleaves s {a, b} \<subseteq> nleaves s {x, y}" and lt: "height s a + height s b < h" for a b
    proof (cases "card (nleaves s {a, b}) < c")
      case True
      show ?thesis by (rule outer [OF True wf refl refl])
    next
      case False
      moreover from sub fin have "card (nleaves s {a, b}) \<le> c"
        unfolding card [symmetric] by (rule card_mono [rotated])
      ultimately have "card (nleaves s {a, b}) = c" by simp
      then show ?thesis by (rule inner [OF lt _ refl])
    qed
    show ?case
    proof (cases "x = y")
      case True
      then have "unify (Suc 0) x y (Some s) = Some (Some s)" by simp
      then show ?thesis by blast
    next
      case ne: False
      show ?thesis
      proof (cases "is_variable x")
        case vx: True
        show ?thesis
        proof (cases "s x")
          case (Some b)
          have "nleaves s {b, y} = nleaves s {x, y}"
            using nleaves_bound [of s x b] Some
            by (simp add: nleaves_pair [of s x y] nleaves_pair [of s b y])
          moreover have "height s b + height s y < h"
            using height_bound [OF wf Some] hs by simp
          ultimately obtain n r where "unify n b y (Some s) = Some r"
            using same [of b y] by auto
          with Some ne vx have "unify (Suc (Suc n)) x y (Some s) = Some r" by simp
          then show ?thesis by blast
        next
          case None
          show ?thesis
          proof (cases "s y")
            case (Some b)
            have "nleaves s {x, b} = nleaves s {x, y}"
              using nleaves_bound [of s y b] Some
              by (simp add: nleaves_pair [of s x y] nleaves_pair [of s x b])
            moreover have "height s x + height s b < h"
              using height_bound [OF wf Some] hs by simp
            ultimately obtain n r where "unify n x b (Some s) = Some r"
              using same [of x b] by auto
            with Some None ne vx have "unify (Suc (Suc n)) x y (Some s) = Some r" by simp
            then show ?thesis by blast
          next
            case yNone: None
            from occurs_check_terminates [OF wf, of x y] obtain n b
              where "occurs_check n x y s = Some b" by blast
            with None yNone ne vx
            have "unify (Suc (Suc n)) x y (Some s) = Some (if b then None else Some (s(x \<mapsto> y)))"
              by simp
            then show ?thesis by blast
          qed
        qed
      next
        case nx: False
        from nx vk have sx: "s x = None" by (rule var_keys_not_variable [rotated])
        show ?thesis
        proof (cases "is_variable y")
          case vy: True
          show ?thesis
          proof (cases "s y")
            case (Some b)
            have "nleaves s {b, x} = nleaves s {x, y}"
              using nleaves_bound [of s y b] Some
              by (simp add: nleaves_pair [of s x y] nleaves_pair [of s b x] Un_commute)
            moreover have "height s b + height s x < h"
              using height_bound [OF wf Some] hs by simp
            ultimately obtain n r where "unify n b x (Some s) = Some r"
              using same [of b x] by auto
            with Some ne nx vy have "unify (Suc (Suc n)) x y (Some s) = Some r" by simp
            then show ?thesis by blast
          next
            case None
            from occurs_check_terminates [OF wf, of y x] obtain n b
              where "occurs_check n y x s = Some b" by blast
            with None sx ne nx vy
            have "unify (Suc (Suc n)) x y (Some s) = Some (if b then None else Some (s(y \<mapsto> x)))"
              by simp
            then show ?thesis by blast
          qed
        next
          case ny: False
          show ?thesis
          proof (cases x)
            case (Term nm)
            with ne nx ny have "unify (Suc 0) x y (Some s) = Some None" by simp
            then show ?thesis by blast
          next
            case fx: (Function f xs)
            show ?thesis
            proof (cases y)
              case (Term nm)
              with fx ne nx ny have "unify (Suc 0) x y (Some s) = Some None" by simp
              then show ?thesis by blast
            next
              case fy: (Function g ys)
              show ?thesis
              proof (cases "f \<noteq> g \<or> length xs \<noteq> length ys")
                case True
                with fx fy ne nx ny have "unify (Suc 0) x y (Some s) = Some None" by auto
                then show ?thesis by blast
              next
                case False
                let ?W = "nleaves s {x, y}"
                have W: "?W = nleaves s (set xs \<union> set ys)"
                  by (simp add: fx fy nleaves_pair nleaves_Un nleaves_Function [OF wf])
                have "\<exists>n r. for_pairs (\<lambda>(a, b) s. unify n a b (Some s)) (zip xs ys) s = Some r"
                proof (rule for_pairs_terminates [OF wf fin card _ _ subset_refl ok_refl [OF wf]])
                  fix a b
                  assume "(a, b) \<in> set (zip xs ys)"
                  then have "a \<in> set xs" "b \<in> set ys" by (auto dest: set_zip_leftD set_zip_rightD)
                  then show "nleaves s {a, b} \<subseteq> ?W" unfolding W by (intro nleaves_mono) auto
                next
                  fix a b s1
                  assume wf1: "wf_subst s1"
                    and d: "card (nleaves s1 {a, b}) < c \<or> (s1 = s \<and> (a, b) \<in> set (zip xs ys))"
                  from d show "\<exists>n r. unify n a b (Some s1) = Some r"
                  proof
                    assume "card (nleaves s1 {a, b}) < c"
                    then show ?thesis by (rule outer [OF _ wf1 refl refl])
                  next
                    assume "s1 = s \<and> (a, b) \<in> set (zip xs ys)"
                    then have s1: "s1 = s" and a: "a \<in> set xs" and b: "b \<in> set ys"
                      by (auto dest: set_zip_leftD set_zip_rightD)
                    have "nleaves s {a, b} \<subseteq> ?W" unfolding W using a b
                      by (intro nleaves_mono) auto
                    moreover have "height s a + height s b < h"
                      using height_arg [OF wf a, of f] height_arg [OF wf b, of g] hs
                      by (simp add: fx fy)
                    ultimately show ?thesis unfolding s1 by (rule same)
                  qed
                qed
                then obtain n r
                  where "for_pairs (\<lambda>(a, b) s. unify n a b (Some s)) (zip xs ys) s = Some r"
                  by blast
                with False fx fy ne nx ny have "unify (Suc (Suc n)) x y (Some s) = Some r" by simp
                then show ?thesis by blast
              qed
            qed
          qed
        qed
      qed
    qed
  qed
  with less.prems show ?case by blast
qed

lemma unify_terminates: "wf_subst s \<Longrightarrow> \<exists>n r. unify n x y (Some s) = Some r"
  by (rule unify_terminates_aux [OF _ refl refl])

section \<open>The unifier finds every unifier\<close>

lemma member_le_sum_list_nat:
  fixes f :: "'a \<Rightarrow> nat"
  shows "a \<in> set as \<Longrightarrow> f a \<le> sum_list (map f as)"
  by (induction as) auto

lemma chases_solves:
  assumes h: "homomorphic \<theta>" and r: "solves \<theta> s"
  shows "chases s t r \<Longrightarrow> \<theta> r = \<theta> t"
proof (induction rule: chases.induct)
  case (chases_bound t b r)
  with r show ?case by (simp add: solves_def)
next
  case (chases_term nm)
  show ?case by simp
next
  case (chases_function f as rs)
  have "map \<theta> rs = map \<theta> as"
    using chases_function.IH by (induction rule: list_all2_induct) simp_all
  with h show ?case by (simp add: homomorphic_def)
qed

lemma leaf_tsize:
  assumes h: "homomorphic \<theta>"
  shows "l \<in> leaves t \<Longrightarrow> tsize (\<theta> l) \<le> tsize (\<theta> t)"
proof (induction t)
  case (Term nm)
  then show ?case by simp
next
  case (Function f as)
  from Function.prems obtain a where a: "a \<in> set as" "l \<in> leaves a" by auto
  with Function.IH have "tsize (\<theta> l) \<le> tsize (\<theta> a)" by simp
  also have "tsize (\<theta> a) \<le> sum_list (map tsize (map \<theta> as))"
    using member_le_sum_list_nat [OF a(1), of "\<lambda>a. tsize (\<theta> a)"] by (simp add: comp_def)
  finally show ?case using h by (simp add: homomorphic_def)
qed

lemma leaf_tsize_Function:
  assumes h: "homomorphic \<theta>" and l: "l \<in> leaves (Function f as)"
  shows "tsize (\<theta> l) < tsize (\<theta> (Function f as))"
proof -
  from l obtain a where a: "a \<in> set as" "l \<in> leaves a" by auto
  from leaf_tsize [OF h a(2)] have "tsize (\<theta> l) \<le> tsize (\<theta> a)" .
  also have "tsize (\<theta> a) \<le> sum_list (map tsize (map \<theta> as))"
    using member_le_sum_list_nat [OF a(1), of "\<lambda>a. tsize (\<theta> a)"] by (simp add: comp_def)
  finally show ?thesis using h by (simp add: homomorphic_def)
qed

lemma occurs_no_unifier:
  assumes wf: "wf_subst s" and h: "homomorphic \<theta>" and r: "solves \<theta> s"
    and var: "is_variable var" "s var = None" and x: "s x = None" "x \<noteq> var"
    and oc: "occurs_check n var x s = Some True"
  shows "\<theta> var \<noteq> \<theta> x"
proof
  assume eq: "\<theta> var = \<theta> x"
  from wf obtain q where q: "chases s x q" by (auto simp: wf_subst_def)
  from wf have vk: "var_keys s" by (simp add: wf_subst_def)
  from occurs_check_True_leaves [OF q vk var oc] have l: "var \<in> leaves q" .
  from chases_solves [OF h r q] have tq: "\<theta> q = \<theta> x" .
  show False
  proof (cases x)
    case (Term nm)
    with x(1) q have "q = x" by (simp add: chases_unbound_Term)
    with l Term x(2) show False by simp
  next
    case (Function f as)
    with q vk obtain rs where "q = Function f rs"
      by (auto simp: chases_unbound_Function var_keys_Function)
    with leaf_tsize_Function [OF h, of var f rs] l have "tsize (\<theta> var) < tsize (\<theta> q)" by simp
    with tq eq show False by simp
  qed
qed

lemma complete_unify_var_step:
  assumes IH: "complete_unify n"
  shows "complete_unify_var (Suc n)"
  unfolding complete_unify_var_def
proof (intro allI impI)
  fix var x s r \<theta>
  assume wf: "wf_subst s" and h: "homomorphic \<theta>" and rs: "solves \<theta> s"
    and var: "is_variable var" and ne: "x \<noteq> var" and eq: "\<theta> var = \<theta> x"
    and res: "unify_var (Suc n) var x s = Some r"
  note IHs = IH [unfolded complete_unify_def, rule_format, OF wf h rs]
  show "\<exists>s'. r = Some s' \<and> solves \<theta> s'"
  proof (cases "s var")
    case (Some b)
    with rs eq have "\<theta> b = \<theta> x" by (simp add: solves_def)
    moreover from Some res have "unify n b x (Some s) = Some r" by simp
    ultimately show ?thesis by (rule IHs)
  next
    case None
    show ?thesis
    proof (cases "s x")
      case (Some b)
      with rs eq have "\<theta> var = \<theta> b" by (simp add: solves_def)
      moreover from None Some res have "unify n var b (Some s) = Some r" by simp
      ultimately show ?thesis by (rule IHs)
    next
      case xNone: None
      with None res obtain b where b: "occurs_check n var x s = Some b"
        by (auto split: option.splits)
      show ?thesis
      proof (cases b)
        case True
        with b have "occurs_check n var x s = Some True" by simp
        from occurs_no_unifier [OF wf h rs var None xNone ne this] eq show ?thesis by simp
      next
        case False
        with b None xNone res have r: "r = Some (s(var \<mapsto> x))" by simp
        have "solves \<theta> (s(var \<mapsto> x))" using rs eq by (simp add: solves_def)
        with r show ?thesis by simp
      qed
    qed
  qed
qed

lemma for_pairs_complete:
  assumes IH: "complete_unify n" and h: "homomorphic \<theta>"
  shows "wf_subst s \<Longrightarrow> solves \<theta> s \<Longrightarrow> \<forall>(a, b) \<in> set ps. \<theta> a = \<theta> b
    \<Longrightarrow> for_pairs (\<lambda>(x, y) s. unify n x y (Some s)) ps s = Some r
    \<Longrightarrow> \<exists>s'. r = Some s' \<and> solves \<theta> s'"
proof (induction ps arbitrary: s)
  case Nil
  then show ?case by auto
next
  case (Cons p ps)
  obtain a b where p: "p = (a, b)" by (cases p)
  from Cons.prems(3) have eq: "\<theta> a = \<theta> b" and rest: "\<forall>(a, b) \<in> set ps. \<theta> a = \<theta> b"
    by (simp_all add: p)
  from Cons.prems(4) obtain r1 where u: "unify n a b (Some s) = Some r1"
    by (auto simp: p split: option.splits)
  from IH [unfolded complete_unify_def, rule_format, OF Cons.prems(1) h Cons.prems(2) eq u]
  obtain s1 where s1: "r1 = Some s1" "solves \<theta> s1" by blast
  from unify_sound [OF Cons.prems(1) u [unfolded s1(1)]] have wf1: "wf_subst s1"
    by (simp add: ok_def)
  from Cons.prems(4) u s1(1)
  have "for_pairs (\<lambda>(x, y) s. unify n x y (Some s)) ps s1 = Some r" by (simp add: p)
  from Cons.IH [OF wf1 s1(2) rest this] show ?case .
qed

lemma complete_unify_lists_step:
  assumes IH: "complete_unify n"
  shows "complete_unify_lists (Suc n)"
  unfolding complete_unify_lists_def
proof (intro allI impI)
  fix xs ys s r \<theta>
  assume wf: "wf_subst s" and h: "homomorphic \<theta>" and rs: "solves \<theta> s"
    and eq: "map \<theta> xs = map \<theta> ys" and res: "unify_lists (Suc n) xs ys s = Some r"
  from eq have len: "length xs = length ys" by (rule map_eq_imp_length_eq)
  with res have fp: "for_pairs (\<lambda>(x, y) s. unify n x y (Some s)) (zip xs ys) s = Some r" by simp
  have "\<forall>(a, b) \<in> set (zip xs ys). \<theta> a = \<theta> b"
    using len eq by (induction xs ys rule: list_induct2) auto
  from for_pairs_complete [OF IH h wf rs this fp] show "\<exists>s'. r = Some s' \<and> solves \<theta> s'" .
qed

lemma complete_unify_step:
  assumes v: "complete_unify_var n" and l: "complete_unify_lists n"
  shows "complete_unify (Suc n)"
  unfolding complete_unify_def
proof (intro allI impI)
  fix x y s r \<theta>
  assume wf: "wf_subst s" and h: "homomorphic \<theta>" and rs: "solves \<theta> s"
    and eq: "\<theta> x = \<theta> y" and res: "unify (Suc n) x y (Some s) = Some r"
  note vs = v [unfolded complete_unify_var_def, rule_format, OF wf h rs]
  note ls = l [unfolded complete_unify_lists_def, rule_format, OF wf h rs]
  show "\<exists>s'. r = Some s' \<and> solves \<theta> s'"
  proof (cases "x = y")
    case True
    with res rs show ?thesis by auto
  next
    case ne: False
    show ?thesis
    proof (cases "is_variable x")
      case True
      with ne res have "unify_var n x y s = Some r" by simp
      with vs [OF True _ eq] ne show ?thesis by auto
    next
      case nx: False
      show ?thesis
      proof (cases "is_variable y")
        case True
        with ne nx res have "unify_var n y x s = Some r" by simp
        with vs [OF True _ eq [symmetric]] ne show ?thesis by auto
      next
        case ny: False
        show ?thesis
        proof (cases x)
          case tx: (Term nm)
          with nx h have x': "\<theta> x = Term nm" by (simp add: homomorphic_def)
          show ?thesis
          proof (cases y)
            case (Term nm')
            with ny h have "\<theta> y = Term nm'" by (simp add: homomorphic_def)
            with x' eq tx Term ne show ?thesis by simp
          next
            case (Function g ys)
            with h have "\<theta> y = Function g (map \<theta> ys)" by (simp add: homomorphic_def)
            with x' eq show ?thesis by simp
          qed
        next
          case fx: (Function f xs)
          with h have x': "\<theta> x = Function f (map \<theta> xs)" by (simp add: homomorphic_def)
          show ?thesis
          proof (cases y)
            case (Term nm')
            with ny h have "\<theta> y = Term nm'" by (simp add: homomorphic_def)
            with x' eq show ?thesis by simp
          next
            case fy: (Function g ys)
            with h have "\<theta> y = Function g (map \<theta> ys)" by (simp add: homomorphic_def)
            with x' eq have fg: "f = g" and m: "map \<theta> xs = map \<theta> ys" by simp_all
            from m have "length xs = length ys" by (rule map_eq_imp_length_eq)
            with fg fx fy ne nx ny res have "unify_lists n xs ys s = Some r" by simp
            from ls [OF m this] show ?thesis .
          qed
        qed
      qed
    qed
  qed
qed

lemma complete_all: "complete_unify n \<and> complete_unify_var n \<and> complete_unify_lists n"
proof (induction n)
  case 0
  show ?case by (simp add: complete_unify_def complete_unify_var_def complete_unify_lists_def)
next
  case (Suc n)
  then show ?case
    by (simp add: complete_unify_var_step complete_unify_lists_step complete_unify_step)
qed

lemma unify_complete:
  "wf_subst s \<Longrightarrow> homomorphic \<theta> \<Longrightarrow> solves \<theta> s \<Longrightarrow> \<theta> x = \<theta> y
     \<Longrightarrow> unify n x y (Some s) = Some r \<Longrightarrow> \<exists>s'. r = Some s' \<and> solves \<theta> s'"
  using complete_all [of n] unfolding complete_unify_def by blast

section \<open>Unification is symmetric\<close>

lemma chases_nf: "wf_subst s \<Longrightarrow> chases s t (nf s t)"
proof -
  assume "wf_subst s"
  then obtain r where r: "chases s t r" by (auto simp: wf_subst_def)
  then have "chases s t (THE r. chases s t r)"
    by (rule theI) (rule chases_unique [OF _ r])
  then show ?thesis by (simp add: nf_def)
qed

lemma nf_eq: "wf_subst s \<Longrightarrow> chases s t r \<Longrightarrow> nf s t = r"
  using chases_nf [of s t] by (auto dest: chases_unique)

lemma homomorphic_nf:
  assumes "wf_subst s"
  shows "homomorphic (nf s)"
proof -
  from assms have vk: "var_keys s" by (simp add: wf_subst_def)
  have "nf s (Function f as) = Function f (map (nf s) as)" for f as
  proof (rule nf_eq [OF assms])
    have "list_all2 (chases s) as (map (nf s) as)"
      by (simp add: list_all2_conv_all_nth chases_nf [OF assms])
    then show "chases s (Function f as) (Function f (map (nf s) as))"
      using var_keys_Function [OF vk] by (auto intro: chases_function)
  qed
  moreover have "nf s (Term nm) = Term nm" if "\<not> is_variable (Term nm)" for nm
  proof (rule nf_eq [OF assms])
    from that vk have "s (Term nm) = None" by (rule var_keys_not_variable [rotated])
    then show "chases s (Term nm) (Term nm)" by (rule chases_term)
  qed
  ultimately show ?thesis by (simp add: homomorphic_def)
qed

lemma agree_nf: "wf_subst s \<Longrightarrow> agree s x y \<Longrightarrow> nf s x = nf s y"
  by (auto simp: agree_def dest: nf_eq)

lemma solves_empty: "solves \<theta> Map.empty"
  by (simp add: solves_def)

lemma substitute_common3:
  assumes "chases a t r" "chases b r u" "chases b t u"
  shows "\<exists>k. substitute k t a = Some r \<and> substitute k r b = Some u \<and> substitute k t b = Some u"
proof -
  from assms obtain k1 k2 k3 where k: "substitute k1 t a = Some r" "substitute k2 r b = Some u"
    "substitute k3 t b = Some u" by (auto simp: chases_iff)
  let ?k = "max k1 (max k2 k3)"
  have "substitute ?k t a = Some r" using k(1) by (rule substitute_mono) simp
  moreover have "substitute ?k r b = Some u" using k(2) by (rule substitute_mono) simp
  moreover have "substitute ?k t b = Some u" using k(3) by (rule substitute_mono) simp
  ultimately show ?thesis by blast
qed

lemma solves_instance:
  assumes wf: "wf_subst \<sigma>" and wf': "wf_subst \<sigma>'" and s: "solves (nf \<sigma>) \<sigma>'"
  shows "instance_of \<sigma> \<sigma>'"
  unfolding instance_of_def
proof
  fix t
  from chases_nf [OF wf'] have r: "chases \<sigma>' t (nf \<sigma>' t)" .
  from chases_solves [OF homomorphic_nf [OF wf] s r] have "nf \<sigma> (nf \<sigma>' t) = nf \<sigma> t" .
  with chases_nf [OF wf, of "nf \<sigma>' t"] have "chases \<sigma> (nf \<sigma>' t) (nf \<sigma> t)" by simp
  from substitute_common3 [OF r this chases_nf [OF wf]]
  show "\<exists>k r u. substitute k t \<sigma>' = Some r \<and> substitute k r \<sigma> = Some u
      \<and> substitute k t \<sigma> = Some u" by blast
qed

lemma unify_swap:
  assumes wf: "wf_subst s" and u: "unify n x y (Some s) = Some (Some \<sigma>)"
  shows "\<exists>m \<sigma>'. unify m y x (Some s) = Some (Some \<sigma>') \<and> solves (nf \<sigma>) \<sigma>' \<and> wf_subst \<sigma>'"
proof -
  from unify_sound [OF wf u] have ok: "ok s \<sigma> (nleaves s {x, y})" and ag: "agree \<sigma> x y"
    by simp_all
  from ok have wf\<sigma>: "wf_subst \<sigma>" and le: "s \<subseteq>\<^sub>m \<sigma>" by (simp_all add: ok_def)
  have hom: "homomorphic (nf \<sigma>)" by (rule homomorphic_nf [OF wf\<sigma>])
  have sol: "solves (nf \<sigma>) s"
    unfolding solves_def
  proof (intro allI impI)
    fix k b
    assume "s k = Some b"
    with le have kb: "\<sigma> k = Some b" by (rule map_le_Some)
    have "chases \<sigma> k (nf \<sigma> b)" using chases_nf [OF wf\<sigma>, of b] kb by (simp add: chases_bound_iff)
    then show "nf \<sigma> k = nf \<sigma> b" by (rule nf_eq [OF wf\<sigma>])
  qed
  from agree_nf [OF wf\<sigma> ag] have eq: "nf \<sigma> y = nf \<sigma> x" by simp
  from unify_terminates [OF wf, of y x] obtain m r where r: "unify m y x (Some s) = Some r"
    by blast
  from unify_complete [OF wf hom sol eq r] obtain \<sigma>' where \<sigma>': "r = Some \<sigma>'" "solves (nf \<sigma>) \<sigma>'"
    by blast
  from unify_sound [OF wf r [unfolded \<sigma>'(1)]] have "wf_subst \<sigma>'" by (simp add: ok_def)
  with r \<sigma>' show ?thesis by blast
qed

lemma unify_deterministic:
  assumes "unify n x y so = Some r" "unify m x y so = Some r'"
  shows "r = r'"
proof -
  from assms(1) have "unify (max n m) x y so = Some r" by (rule unify_mono) simp
  moreover from assms(2) have "unify (max n m) x y so = Some r'" by (rule unify_mono) simp
  ultimately show ?thesis by simp
qed

lemma unify_both_instances:
  assumes wf: "wf_subst s" and u: "unify n x y (Some s) = Some (Some \<sigma>)"
    and v: "unify m y x (Some s) = Some (Some \<sigma>')"
  shows "instance_of \<sigma> \<sigma>'"
proof -
  from unify_swap [OF wf u] obtain m' \<sigma>'' where s: "unify m' y x (Some s) = Some (Some \<sigma>'')"
    "solves (nf \<sigma>) \<sigma>''" "wf_subst \<sigma>''" by blast
  from unify_deterministic [OF v s(1)] have "\<sigma>'' = \<sigma>'" by simp
  with s have "solves (nf \<sigma>) \<sigma>'" "wf_subst \<sigma>'" by simp_all
  moreover from unify_sound [OF wf u] have "wf_subst \<sigma>" by (simp add: ok_def)
  ultimately show ?thesis by (intro solves_instance)
qed

lemma unify_most_general:
  assumes u: "unify n x y (Some Map.empty) = Some (Some \<sigma>)"
    and h: "homomorphic \<theta>" and eq: "\<theta> x = \<theta> y" and r: "substitute k t \<sigma> = Some r"
  shows "\<theta> r = \<theta> t"
proof -
  from unify_complete [OF wf_subst_empty h solves_empty eq u] have "solves \<theta> \<sigma>" by simp
  moreover from r have "chases \<sigma> t r" by (rule substitute_chases)
  ultimately show ?thesis using h by (intro chases_solves)
qed

lemma unify_args_as_unify:
  "unify_args (Suc (Suc n)) xs ys so = unify (Suc (Suc n)) (Function f xs) (Function f ys) so"
  by (cases so) auto

lemma unify_args_to_unify:
  assumes "unify_args n xs ys so = Some r"
  shows "\<exists>m. unify m (Function f xs) (Function f ys) so = Some r"
proof -
  from assms have "unify_args (Suc (Suc n)) xs ys so = Some r" by (rule unify_args_mono) simp
  then have "unify (Suc (Suc n)) (Function f xs) (Function f ys) so = Some r"
    by (simp only: unify_args_as_unify [of n xs ys so f, symmetric])
  then show ?thesis ..
qed

lemma unify_to_unify_args:
  assumes "unify n (Function f xs) (Function f ys) so = Some r"
  shows "\<exists>m. unify_args m xs ys so = Some r"
proof -
  from assms have "unify (Suc (Suc n)) (Function f xs) (Function f ys) so = Some r"
    by (rule unify_mono) simp
  then have "unify_args (Suc (Suc n)) xs ys so = Some r"
    by (simp only: unify_args_as_unify [of n xs ys so f])
  then show ?thesis ..
qed

lemma unify_success_swap:
  "\<exists>n \<sigma>. unify n x y (Some Map.empty) = Some (Some \<sigma>)
     \<Longrightarrow> \<exists>n \<sigma>. unify n y x (Some Map.empty) = Some (Some \<sigma>)"
proof -
  assume "\<exists>n \<sigma>. unify n x y (Some Map.empty) = Some (Some \<sigma>)"
  then obtain n \<sigma> where "unify n x y (Some Map.empty) = Some (Some \<sigma>)" by blast
  from unify_swap [OF wf_subst_empty this] show ?thesis by blast
qed

lemma unify_args_success_swap:
  "\<exists>n \<sigma>. unify_args n xs ys (Some Map.empty) = Some (Some \<sigma>)
     \<Longrightarrow> \<exists>n \<sigma>. unify_args n ys xs (Some Map.empty) = Some (Some \<sigma>)"
proof -
  assume "\<exists>n \<sigma>. unify_args n xs ys (Some Map.empty) = Some (Some \<sigma>)"
  then obtain n \<sigma> where "unify_args n xs ys (Some Map.empty) = Some (Some \<sigma>)" by blast
  from unify_args_to_unify [OF this, of "[]"] obtain m
    where "unify m (Function [] xs) (Function [] ys) (Some Map.empty) = Some (Some \<sigma>)" ..
  from unify_swap [OF wf_subst_empty this] obtain m' \<sigma>'
    where "unify m' (Function [] ys) (Function [] xs) (Some Map.empty) = Some (Some \<sigma>')" by blast
  from unify_to_unify_args [OF this] show ?thesis by blast
qed

lemma unify_args_both_instances:
  assumes u: "unify_args n xs ys (Some Map.empty) = Some (Some \<sigma>)"
    and v: "unify_args m ys xs (Some Map.empty) = Some (Some \<sigma>')"
  shows "instance_of \<sigma> \<sigma>'"
proof -
  from unify_args_to_unify [OF u, of "[]"] obtain n'
    where u': "unify n' (Function [] xs) (Function [] ys) (Some Map.empty) = Some (Some \<sigma>)" ..
  from unify_args_to_unify [OF v, of "[]"] obtain m'
    where v': "unify m' (Function [] ys) (Function [] xs) (Some Map.empty) = Some (Some \<sigma>')" ..
  from wf_subst_empty u' v' show ?thesis by (rule unify_both_instances)
qed

lemma unify_args_terminates: "\<exists>n r. unify_args n xs ys (Some Map.empty) = Some r"
proof -
  from unify_terminates [OF wf_subst_empty, of "Function [] xs" "Function [] ys"] obtain n r
    where "unify n (Function [] xs) (Function [] ys) (Some Map.empty) = Some r" by blast
  from unify_to_unify_args [OF this] show ?thesis by blast
qed

text \<open>
  C7: \<open>unify(x, y, {})\<close> returns a substitution exactly when \<open>unify(y, x, {})\<close> does,
  and both calls return; the two substitutions are instances of each other (applying one
  after the other gives what the one gives alone), as two most general unifiers that
  differ in the direction of bindings are; and under every substitution that makes \<open>x\<close>
  and \<open>y\<close> equal, a term and its image under the returned substitution are equal. The
  same holds for \<open>unify\<close> on two argument lists.
\<close>

theorem C7_unify_symmetric:
  "((\<exists>n \<sigma>. unify n x y (Some Map.empty) = Some (Some \<sigma>))
      \<longleftrightarrow> (\<exists>n \<sigma>. unify n y x (Some Map.empty) = Some (Some \<sigma>)))
   \<and> (\<exists>n r. unify n x y (Some Map.empty) = Some r)
   \<and> (\<forall>n m \<sigma> \<sigma>'. unify n x y (Some Map.empty) = Some (Some \<sigma>)
          \<and> unify m y x (Some Map.empty) = Some (Some \<sigma>')
        \<longrightarrow> instance_of \<sigma> \<sigma>' \<and> instance_of \<sigma>' \<sigma>)
   \<and> (\<forall>n \<sigma> \<theta> t k r. unify n x y (Some Map.empty) = Some (Some \<sigma>)
          \<and> homomorphic \<theta> \<and> \<theta> x = \<theta> y \<and> substitute k t \<sigma> = Some r
        \<longrightarrow> \<theta> r = \<theta> t)
   \<and> ((\<exists>n \<sigma>. unify_args n xs ys (Some Map.empty) = Some (Some \<sigma>))
      \<longleftrightarrow> (\<exists>n \<sigma>. unify_args n ys xs (Some Map.empty) = Some (Some \<sigma>)))
   \<and> (\<exists>n r. unify_args n xs ys (Some Map.empty) = Some r)
   \<and> (\<forall>n m \<sigma> \<sigma>'. unify_args n xs ys (Some Map.empty) = Some (Some \<sigma>)
          \<and> unify_args m ys xs (Some Map.empty) = Some (Some \<sigma>')
        \<longrightarrow> instance_of \<sigma> \<sigma>' \<and> instance_of \<sigma>' \<sigma>)"
proof (intro conjI allI impI)
  show "(\<exists>n \<sigma>. unify n x y (Some Map.empty) = Some (Some \<sigma>))
      \<longleftrightarrow> (\<exists>n \<sigma>. unify n y x (Some Map.empty) = Some (Some \<sigma>))"
    using unify_success_swap [of x y] unify_success_swap [of y x] by (rule iffI)
  show "\<exists>n r. unify n x y (Some Map.empty) = Some r"
    by (rule unify_terminates [OF wf_subst_empty])
  show "(\<exists>n \<sigma>. unify_args n xs ys (Some Map.empty) = Some (Some \<sigma>))
      \<longleftrightarrow> (\<exists>n \<sigma>. unify_args n ys xs (Some Map.empty) = Some (Some \<sigma>))"
    using unify_args_success_swap [of xs ys] unify_args_success_swap [of ys xs] by (rule iffI)
  show "\<exists>n r. unify_args n xs ys (Some Map.empty) = Some r"
    by (rule unify_args_terminates)
next
  fix n m \<sigma> \<sigma>'
  assume a: "unify n x y (Some Map.empty) = Some (Some \<sigma>)
    \<and> unify m y x (Some Map.empty) = Some (Some \<sigma>')"
  from a show "instance_of \<sigma> \<sigma>'" by (auto intro: unify_both_instances [OF wf_subst_empty])
  from a show "instance_of \<sigma>' \<sigma>" by (auto intro: unify_both_instances [OF wf_subst_empty])
next
  fix n \<sigma> \<theta> t k r
  assume "unify n x y (Some Map.empty) = Some (Some \<sigma>)
    \<and> homomorphic \<theta> \<and> \<theta> x = \<theta> y \<and> substitute k t \<sigma> = Some r"
  then show "\<theta> r = \<theta> t" by (auto intro: unify_most_general)
next
  fix n m \<sigma> \<sigma>'
  assume a: "unify_args n xs ys (Some Map.empty) = Some (Some \<sigma>)
    \<and> unify_args m ys xs (Some Map.empty) = Some (Some \<sigma>')"
  from a show "instance_of \<sigma> \<sigma>'" by (auto intro: unify_args_both_instances)
  from a show "instance_of \<sigma>' \<sigma>" by (auto intro: unify_args_both_instances)
qed

theorem C7_unify_symmetric_witness:
  "unify (Suc (Suc (Suc 0))) (Term ''x'') (Term ''y'') (Some Map.empty)
     = Some (Some [Term ''x'' \<mapsto> Term ''y''])
   \<and> unify (Suc (Suc (Suc 0))) (Term ''y'') (Term ''x'') (Some Map.empty)
     = Some (Some [Term ''y'' \<mapsto> Term ''x''])
   \<and> instance_of [Term ''x'' \<mapsto> Term ''y''] [Term ''y'' \<mapsto> Term ''x'']
   \<and> instance_of [Term ''y'' \<mapsto> Term ''x''] [Term ''x'' \<mapsto> Term ''y'']"
proof -
  have u: "unify (Suc (Suc (Suc 0))) (Term ''x'') (Term ''y'') (Some Map.empty)
     = Some (Some [Term ''x'' \<mapsto> Term ''y''])"
    by (simp add: is_lower_def)
  have v: "unify (Suc (Suc (Suc 0))) (Term ''y'') (Term ''x'') (Some Map.empty)
     = Some (Some [Term ''y'' \<mapsto> Term ''x''])"
    by (simp add: is_lower_def)
  have i: "instance_of [Term ''x'' \<mapsto> Term ''y''] [Term ''y'' \<mapsto> Term ''x'']
      \<and> instance_of [Term ''y'' \<mapsto> Term ''x''] [Term ''x'' \<mapsto> Term ''y'']"
    by (rule C7_unify_symmetric [THEN conjunct2, THEN conjunct2, THEN conjunct1, rule_format,
          OF conjI, OF u v])
  from u v i show ?thesis by (intro conjI) simp_all
qed

section \<open>Two runs of the saturation loop\<close>

lemma those_map_mono:
  assumes "those (map f xs) = Some ys" and "\<And>x y. x \<in> set xs \<Longrightarrow> f x = Some y \<Longrightarrow> g x = Some y"
  shows "those (map g xs) = Some ys"
proof -
  from assms(1) have "list_all2 (\<lambda>x y. f x = Some y) xs ys" by (simp add: those_map_Some)
  then have "list_all2 (\<lambda>x y. g x = Some y) xs ys"
    by (rule list.rel_mono_strong) (rule assms(2))
  then show ?thesis by (simp add: those_map_Some)
qed

lemma substitute_predicate_mono:
  assumes "substitute_predicate n p s = Some q" "n \<le> m"
  shows "substitute_predicate m p s = Some q"
proof -
  from assms(1) obtain new_args where a: "those (map (\<lambda>arg. substitute n arg s) (args p)) = Some new_args"
    and q: "q = Predicate (name p) new_args (negated p)"
    by (auto simp: substitute_predicate_def)
  from a have "those (map (\<lambda>arg. substitute m arg s) (args p)) = Some new_args"
    by (rule those_map_mono) (rule substitute_mono [OF _ assms(2)])
  with q show ?thesis by (simp add: substitute_predicate_def)
qed

lemma resolve_literals_mono:
  assumes "resolve_literals lo n ci cj pi pj = Some r" "n \<le> m"
  shows "resolve_literals lo m ci cj pi pj = Some r"
proof -
  define c where "c \<longleftrightarrow> name pi = name pj \<and> negated pi \<noteq> negated pj"
  have eq: "resolve_literals lo k ci cj pi pj =
     (if c then
        (case unify_args k (args pi) (args pj) (Some Map.empty) of
           None \<Rightarrow> None
         | Some None \<Rightarrow> Some []
         | Some (Some subst) \<Rightarrow>
             (case those (map (\<lambda>p. substitute_predicate k p subst)
                           (filter (\<lambda>p. p \<noteq> pi) (literals ci))) of
                None \<Rightarrow> None
              | Some new_ci \<Rightarrow>
                  (case those (map (\<lambda>p. substitute_predicate k p subst)
                                (filter (\<lambda>p. p \<noteq> pj) (literals cj))) of
                     None \<Rightarrow> None
                   | Some new_cj \<Rightarrow> Some [Clause (lo (new_ci @ new_cj))])))
      else Some [])" for k
    unfolding resolve_literals_def c_def by (rule refl)
  show ?thesis
  proof (cases c)
    case False
    with assms(1) show ?thesis by (simp add: eq)
  next
    case True
    with assms(1) obtain u where u: "unify_args n (args pi) (args pj) (Some Map.empty) = Some u"
      by (auto simp: eq split: option.splits)
    from unify_args_mono [OF u assms(2)]
    have u': "unify_args m (args pi) (args pj) (Some Map.empty) = Some u" .
    show ?thesis
    proof (cases u)
      case None
      with True u u' assms(1) show ?thesis by (simp add: eq)
    next
      case (Some s)
      with True u assms(1) obtain new_ci new_cj where
        a: "those (map (\<lambda>p. substitute_predicate n p s) (filter (\<lambda>p. p \<noteq> pi) (literals ci)))
              = Some new_ci"
        and b: "those (map (\<lambda>p. substitute_predicate n p s) (filter (\<lambda>p. p \<noteq> pj) (literals cj)))
              = Some new_cj"
        and r: "r = [Clause (lo (new_ci @ new_cj))]"
        by (auto simp: eq split: option.splits)
      from a have a': "those (map (\<lambda>p. substitute_predicate m p s)
          (filter (\<lambda>p. p \<noteq> pi) (literals ci))) = Some new_ci"
        by (rule those_map_mono) (rule substitute_predicate_mono [OF _ assms(2)])
      from b have b': "those (map (\<lambda>p. substitute_predicate m p s)
          (filter (\<lambda>p. p \<noteq> pj) (literals cj))) = Some new_cj"
        by (rule those_map_mono) (rule substitute_predicate_mono [OF _ assms(2)])
      from True Some u' a' b' r show ?thesis by (simp add: eq)
    qed
  qed
qed

lemma resolve_mono:
  assumes "resolve lo n ci cj = Some rs" "n \<le> m"
  shows "resolve lo m ci cj = Some rs"
proof -
  let ?ps = "List.product (literals ci) (literals cj)"
  from assms(1) obtain rss where
    a: "those (map (\<lambda>(pi, pj). resolve_literals lo n ci cj pi pj) ?ps) = Some rss"
    and rs: "rs = concat rss"
    by (auto simp: resolve_def)
  from a have "those (map (\<lambda>(pi, pj). resolve_literals lo m ci cj pi pj) ?ps) = Some rss"
  proof (rule those_map_mono)
    fix p r
    assume "(case p of (pi, pj) \<Rightarrow> resolve_literals lo n ci cj pi pj) = Some r"
    then show "(case p of (pi, pj) \<Rightarrow> resolve_literals lo m ci cj pi pj) = Some r"
      by (cases p) (simp add: resolve_literals_mono [OF _ assms(2)])
  qed
  with rs show ?thesis by (simp add: resolve_def)
qed

lemma for_clause_pairs_mono:
  "for_clause_pairs lo n ps st = Some out \<Longrightarrow> n \<le> m \<Longrightarrow> for_clause_pairs lo m ps st = Some out"
proof (induction ps arbitrary: st)
  case Nil
  then show ?case by simp
next
  case (Cons p ps)
  obtain ci cj where p: "p = (ci, cj)" by (cases p)
  from Cons.prems(1) obtain rs where rs: "resolve lo n ci cj = Some rs"
    by (auto simp: p split: option.splits)
  from resolve_mono [OF rs Cons.prems(2)] have rs': "resolve lo m ci cj = Some rs" .
  show ?case
  proof (cases "for_resolvents rs st")
    case (Inl v)
    with rs rs' Cons.prems(1) show ?thesis by (auto simp: p)
  next
    case (Inr st')
    with rs Cons.prems(1) have "for_clause_pairs lo n ps st' = Some out" by (simp add: p)
    from Cons.IH [OF this Cons.prems(2)] rs' Inr show ?thesis by (simp add: p)
  qed
qed

lemma saturate_mono:
  "saturate lo co d r clauses derived = Some a \<Longrightarrow> d \<le> d' \<Longrightarrow> r \<le> r'
     \<Longrightarrow> saturate lo co d' r' clauses derived = Some a"
proof (induction r arbitrary: r' clauses derived)
  case 0
  then show ?case by simp
next
  case (Suc r)
  from Suc.prems(3) obtain k where r': "r' = Suc k" and rk: "r \<le> k" by (cases r') auto
  from Suc.prems(1) obtain out where
    out: "for_clause_pairs lo d (pairs clauses) ([], derived) = Some out"
    by (auto split: option.splits)
  from for_clause_pairs_mono [OF out Suc.prems(2)]
  have out': "for_clause_pairs lo d' (pairs clauses) ([], derived) = Some out" .
  show ?case
  proof (cases out)
    case (Inl v)
    with out out' Suc.prems(1) show ?thesis by (auto simp: r')
  next
    case (Inr st)
    obtain new derived' where st: "st = (new, derived')" by (cases st)
    show ?thesis
    proof (cases "new = []")
      case True
      with Inr st out out' Suc.prems(1) show ?thesis by (auto simp: r')
    next
      case False
      with Inr st out Suc.prems(1)
      have "saturate lo co d r (clauses @ co new) derived' = Some a" by simp
      from Suc.IH [OF this Suc.prems(2) rk] False Inr st out' show ?thesis by (simp add: r')
    qed
  qed
qed

lemma resolution_run_deterministic:
  assumes "resolution_run lo co d1 r1 kb = Some a" "resolution_run lo co d2 r2 kb = Some b"
  shows "a = b"
proof -
  from assms(1) have "saturate lo co (max d1 d2) (max r1 r2) kb (set_of_list kb) = Some a"
    unfolding resolution_run_def by (rule saturate_mono) simp_all
  moreover from assms(2) have "saturate lo co (max d1 d2) (max r1 r2) kb (set_of_list kb) = Some b"
    unfolding resolution_run_def by (rule saturate_mono) simp_all
  ultimately show ?thesis by simp
qed

text \<open>
  C8 (as amended): with the sets iterated in the same order in both runs, two runs of
  \<open>resolution\<close> on the same knowledge base that return give the same verdict and the same
  number of clauses in the set \<open>derived\<close>, whatever the bounds of the two runs.
\<close>

theorem C8_resolution_deterministic:
  "(resolution_run lo co d1 r1 kb = Some (v1, D1) \<and> resolution_run lo co d2 r2 kb = Some (v2, D2)
      \<longrightarrow> v1 = v2 \<and> length D1 = length D2)
   \<and> (resolution lo co d1 r1 kb = Some v1 \<and> resolution lo co d2 r2 kb = Some v2 \<longrightarrow> v1 = v2)"
proof (rule conjI; rule impI)
  assume "resolution_run lo co d1 r1 kb = Some (v1, D1)
    \<and> resolution_run lo co d2 r2 kb = Some (v2, D2)"
  then have "resolution_run lo co d1 r1 kb = Some (v1, D1)"
    "resolution_run lo co d2 r2 kb = Some (v2, D2)" by simp_all
  then have "(v1, D1) = (v2, D2)" by (rule resolution_run_deterministic)
  then show "v1 = v2 \<and> length D1 = length D2" by simp
next
  assume "resolution lo co d1 r1 kb = Some v1 \<and> resolution lo co d2 r2 kb = Some v2"
  then obtain a b where a: "resolution_run lo co d1 r1 kb = Some a" "v1 = fst a"
    and b: "resolution_run lo co d2 r2 kb = Some b" "v2 = fst b"
    by (auto simp: resolution_def)
  from resolution_run_deterministic [OF a(1) b(1)] a(2) b(2) show "v1 = v2" by simp
qed

lemma kb_order_id:
  "map_option (\<lambda>(v, D). (v, length D)) (resolution_run remdups id 1 2 kb_order) = Some (''no'', 9)"
  by code_simp

lemma kb_order_id3:
  "map_option (\<lambda>(v, D). (v, length D)) (resolution_run remdups id 2 3 kb_order) = Some (''no'', 9)"
  by code_simp

lemma kb_order_rev:
  "map_option (\<lambda>(v, D). (v, length D)) (resolution_run remdups rev 1 2 kb_order) = Some (''no'', 10)"
  by code_simp

theorem C8_resolution_deterministic_witness:
  "(\<exists>D. resolution_run remdups id 1 2 kb_order = Some (''no'', D) \<and> length D = 9)
   \<and> (\<exists>D. resolution_run remdups id 2 3 kb_order = Some (''no'', D) \<and> length D = 9)"
proof -
  from kb_order_id obtain D1 where 1: "resolution_run remdups id 1 2 kb_order = Some (''no'', D1)"
    "length D1 = 9" by auto
  from kb_order_id3 obtain v2 D2 where 2: "resolution_run remdups id 2 3 kb_order = Some (v2, D2)"
    by auto
  from C8_resolution_deterministic [THEN conjunct1, rule_format, OF conjI, OF 1(1) 2]
  have "''no'' = v2 \<and> length D1 = length D2" .
  with 1 2 show ?thesis by simp
qed

text \<open>
  The claim as first stated fails where the two runs iterate over the set \<open>new\<close> in
  different orders: on the knowledge base \<open>{P}, {!P, Q}, {!Q}, {!P, R, S}, {!S}\<close> the second
  round reaches the empty clause after 9 derived clauses in one order and after 10 in the
  reverse order.
\<close>

theorem C8_counterexample:
  "clause_order id \<and> clause_order rev \<and> literal_order remdups
   \<and> map_option (\<lambda>(v, D). (v, length D)) (resolution_run remdups id 1 2 kb_order) = Some (''no'', 9)
   \<and> map_option (\<lambda>(v, D). (v, length D)) (resolution_run remdups rev 1 2 kb_order) = Some (''no'', 10)"
proof -
  have "clause_order id" "clause_order rev" "literal_order remdups"
    by (simp_all add: clause_order_def literal_order_def)
  with kb_order_id kb_order_rev show ?thesis by simp
qed

end
